theory Spec2Isabelle
  imports Main "HOL-Library.Sublist" "HOL-Library.AList"
begin

text \<open>
  The item selection of gitree: \<open>PathResolver\<close>, \<open>GitIgnore\<close>, \<open>GitIgnoreMatcher\<close>,
  \<open>FilterApplier\<close> and \<open>ItemsSelectionService.run\<close>, as functions over an explicit file
  system, with the caches of the objects as state that every call returns updated, and
  Python exceptions as values. The first part holds the definitions, one for each method of
  the source and under its name; the second part states and proves the properties.
\<close>

section \<open>Strings\<close>

text \<open>
  A Python \<open>str\<close> is modelled by its UTF-8 encoding, a \<^typ>\<open>string\<close> of bytes. The
  characters the code searches for, strips or compares with (\<open>.\<close>, \<open>/\<close>, \<open>!\<close>, \<open>#\<close>, the
  glob characters) are ASCII, and in UTF-8 an ASCII byte never occurs inside the encoding
  of another character: searching for such a character, stripping it and slicing after it
  act on the encoding as they act on the text. An index into the encoding is greater than
  0 exactly when the index into the text is.

  \<open>str.lower()\<close> depends on the Unicode case tables and on context (a capital sigma at the
  end of a word lowers to a final sigma). It is a library function and a parameter
  \<open>lower\<close> of the functions that call it.
\<close>

type_synonym lowercase = "string \<Rightarrow> string"

definition lstrip :: "char \<Rightarrow> string \<Rightarrow> string" where
  "lstrip c s = dropWhile (\<lambda>x. x = c) s"

text \<open>
  \<open>str.strip()\<close> removes the characters for which \<open>str.isspace()\<close> holds from both ends:
  U+0009 to U+000D, U+001C to U+0020, U+0085, U+00A0, U+1680, U+2000 to U+200A, U+2028,
  U+2029, U+202F, U+205F and U+3000, here in UTF-8.
\<close>

definition whitespace :: "string list" where
  "whitespace =
     [[CHR 0x09], [CHR 0x0A], [CHR 0x0B], [CHR 0x0C], [CHR 0x0D],
      [CHR 0x1C], [CHR 0x1D], [CHR 0x1E], [CHR 0x1F], [CHR 0x20],
      [CHR 0xC2, CHR 0x85], [CHR 0xC2, CHR 0xA0], [CHR 0xE1, CHR 0x9A, CHR 0x80],
      [CHR 0xE2, CHR 0x80, CHR 0x80], [CHR 0xE2, CHR 0x80, CHR 0x81],
      [CHR 0xE2, CHR 0x80, CHR 0x82], [CHR 0xE2, CHR 0x80, CHR 0x83],
      [CHR 0xE2, CHR 0x80, CHR 0x84], [CHR 0xE2, CHR 0x80, CHR 0x85],
      [CHR 0xE2, CHR 0x80, CHR 0x86], [CHR 0xE2, CHR 0x80, CHR 0x87],
      [CHR 0xE2, CHR 0x80, CHR 0x88], [CHR 0xE2, CHR 0x80, CHR 0x89],
      [CHR 0xE2, CHR 0x80, CHR 0x8A], [CHR 0xE2, CHR 0x80, CHR 0xA8],
      [CHR 0xE2, CHR 0x80, CHR 0xA9], [CHR 0xE2, CHR 0x80, CHR 0xAF],
      [CHR 0xE2, CHR 0x81, CHR 0x9F], [CHR 0xE3, CHR 0x80, CHR 0x80]]"

fun strip_left :: "string list \<Rightarrow> string \<Rightarrow> string" where
  "strip_left seqs [] = []"
| "strip_left seqs (c # s) =
     (case find (\<lambda>w. w \<noteq> [] \<and> prefix w (c # s)) seqs of
        None \<Rightarrow> c # s
      | Some w \<Rightarrow> strip_left seqs (drop (length w - 1) s))"

definition strip :: "string \<Rightarrow> string" where
  "strip s = rev (strip_left (map rev whitespace) (rev (strip_left whitespace s)))"

definition startswith :: "string \<Rightarrow> string \<Rightarrow> bool" where
  "startswith s p \<longleftrightarrow> prefix p s"

text \<open>\<open>s.rfind(c)\<close>: the highest index of \<open>c\<close> in \<open>s\<close>, or \<open>-1\<close>.\<close>

fun rfind :: "string \<Rightarrow> char \<Rightarrow> int" where
  "rfind [] c = - 1"
| "rfind (x # xs) c =
     (let r = rfind xs c
      in if 0 \<le> r then r + 1 else if x = c then 0 else - 1)"

text \<open>\<open>sep.join(xs)\<close>.\<close>

fun join :: "string \<Rightarrow> string list \<Rightarrow> string" where
  "join sep [] = []"
| "join sep [x] = x"
| "join sep (x # y # ys) = x @ sep @ join sep (y # ys)"


section \<open>Paths\<close>

text \<open>
  A \<open>pathlib.Path\<close> is its anchor (\<open>''/''\<close> on POSIX, a drive root on Windows, empty for
  a relative path) and the segments below the anchor. Two paths are equal exactly when
  their string forms are, so caches keyed by \<open>str(path)\<close> are keyed by the path itself.
\<close>

datatype path = Path (anchor: string) (segments: "string list")

text \<open>\<open>d / name\<close> for a single segment, and \<open>base / p\<close> for a path.\<close>

definition joinpath :: "path \<Rightarrow> string \<Rightarrow> path" where
  "joinpath d n = Path (anchor d) (segments d @ [n])"

definition join_paths :: "path \<Rightarrow> path \<Rightarrow> path" where
  "join_paths base p =
     (if anchor p \<noteq> [] then p else Path (anchor base) (segments base @ segments p))"

definition parent :: "path \<Rightarrow> path" where
  "parent p = Path (anchor p) (butlast (segments p))"

definition name :: "path \<Rightarrow> string" where
  "name p = (if segments p = [] then [] else last (segments p))"

text \<open>
  \<open>p.relative_to(root)\<close> raises \<open>ValueError\<close> unless \<open>root\<close> is \<open>p\<close> or one of its
  ancestors; the model returns the remaining segments, or \<open>None\<close> for the exception.
\<close>

definition relative_to :: "path \<Rightarrow> path \<Rightarrow> string list option" where
  "relative_to p root =
     (if anchor p = anchor root \<and> prefix (segments root) (segments p)
      then Some (drop (length (segments root)) (segments p))
      else None)"

definition is_relative_to :: "path \<Rightarrow> path \<Rightarrow> bool" where
  "is_relative_to p root \<longleftrightarrow> relative_to p root \<noteq> None"

text \<open>\<open>as_posix()\<close> of a relative path: the empty relative path prints as a dot.\<close>

definition as_posix :: "string list \<Rightarrow> string" where
  "as_posix parts = (if parts = [] then ''.'' else join ''/'' parts)"

text \<open>
  \<open>os.path.commonpath\<close>: the longest common prefix of the paths, segment by segment. It
  raises \<open>ValueError\<close> (here \<open>None\<close>) for an empty sequence and when the paths do not share
  one anchor (absolute mixed with relative, or different drives).
\<close>

fun common_segments :: "string list list \<Rightarrow> string list" where
  "common_segments [] = []"
| "common_segments [s] = s"
| "common_segments (s # t # ts) = longest_common_prefix s (common_segments (t # ts))"

definition commonpath :: "path list \<Rightarrow> path option" where
  "commonpath ps =
     (case ps of
        [] \<Rightarrow> None
      | p # qs \<Rightarrow>
          if list_all (\<lambda>q. anchor q = anchor p) qs
          then Some (Path (anchor p) (common_segments (map segments ps)))
          else None)"


section \<open>The file system and the pattern matcher\<close>

text \<open>
  The code reads the file system through \<open>pathlib\<close>, \<open>os\<close> and \<open>glob\<close>. One run sees one
  file system, which the model takes as a record of the observations the code makes:
  \<^item> \<open>fs_path s\<close> is \<open>Path(s)\<close>;
  \<^item> \<open>fs_resolve p\<close> is \<open>p.resolve(strict=False)\<close>, which makes the path absolute against
    the working directory and follows symbolic links;
  \<^item> \<open>fs_iterdir d\<close> lists the names of the children of \<open>d\<close>, \<open>None\<close> when listing raises
    \<open>OSError\<close>;
  \<^item> \<open>fs_read_lines f\<close> is \<open>f.read_text(...).splitlines()\<close>, \<open>None\<close> when reading raises;
  \<^item> \<open>fs_glob pat\<close> is \<open>glob.glob(pat, recursive=True, include_hidden=True)\<close>.
\<close>

record filesystem =
  fs_cwd :: path
  fs_path :: "string \<Rightarrow> path"
  fs_exists :: "path \<Rightarrow> bool"
  fs_is_dir :: "path \<Rightarrow> bool"
  fs_is_file :: "path \<Rightarrow> bool"
  fs_is_symlink :: "path \<Rightarrow> bool"
  fs_resolve :: "path \<Rightarrow> path"
  fs_iterdir :: "path \<Rightarrow> string list option"
  fs_read_lines :: "path \<Rightarrow> string list option"
  fs_glob :: "string \<Rightarrow> string list"

text \<open>
  A compiled \<open>pathspec.PathSpec\<close> is kept as the list of pattern lines it was compiled
  from. The wildmatch algorithm is a library capability: \<open>spec.match_file(rel)\<close> is a
  parameter of every function that matches.
\<close>

type_synonym pathspec = "string list"
type_synonym matcher = "pathspec \<Rightarrow> string \<Rightarrow> bool"

text \<open>
  Modelled from the spec: the configuration object \<open>Config\<close>, of which the selection code
  reads these fields. The two depths are \<open>None\<close> when unbounded, as
  \<open>GitIgnore._within_depth\<close> tests for.
\<close>

record config =
  cfg_paths :: "string list"
  cfg_include :: "string list"
  cfg_exclude :: "string list"
  cfg_gitignore :: bool
  cfg_gitignore_depth :: "int option"
  cfg_exclude_depth :: "int option"
  cfg_hidden_items :: bool
  cfg_no_files :: bool
  cfg_file_extensions :: "string list"


section \<open>GitIgnore: one loaded set of patterns\<close>

record gitignore =
  gi_enabled :: bool
  gi_gitignore_depth :: "int option"
  gi_specs :: "(path \<times> pathspec) list"
  gi_rel_path_cache :: "(path \<times> path) \<rightharpoonup> string option"
  gi_root_path :: "path option"

text \<open>\<open>GitIgnore._parse_gitignore_file\<close>: the loop over the lines of the file.\<close>

fun parse_lines :: "string list \<Rightarrow> string list" where
  "parse_lines [] = []"
| "parse_lines (l # ls) =
     (let line = strip l
      in if line = [] \<or> startswith line ''#'' then parse_lines ls
         else
           (let neg = startswith line ''!'';
                pat = lstrip CHR ''/'' (if neg then drop 1 line else line)
            in (if neg then ''!'' @ pat else pat) # parse_lines ls))"

definition parse_gitignore_file :: "filesystem \<Rightarrow> path \<Rightarrow> string list" where
  "parse_gitignore_file fs gitignore_path =
     (case fs_read_lines fs gitignore_path of
        None \<Rightarrow> []
      | Some ls \<Rightarrow> parse_lines ls)"

text \<open>\<open>GitIgnore._load_spec_from_gitignore\<close> and the constructor.\<close>

definition load_spec_from_gitignore :: "filesystem \<Rightarrow> gitignore \<Rightarrow> path \<Rightarrow> gitignore" where
  "load_spec_from_gitignore fs gi gitignore_path =
     (let g = fs_resolve fs gitignore_path;
          root = parent g;
          patterns = parse_gitignore_file fs g
      in gi\<lparr>gi_specs := (if patterns \<noteq> [] then [(root, patterns)] else []),
            gi_rel_path_cache := Map.empty,
            gi_root_path := Some root\<rparr>)"

definition GitIgnore :: "filesystem \<Rightarrow> config \<Rightarrow> path \<Rightarrow> gitignore" where
  "GitIgnore fs cfg gitignore_path =
     load_spec_from_gitignore fs
       \<lparr>gi_enabled = cfg_gitignore cfg,
        gi_gitignore_depth = cfg_gitignore_depth cfg,
        gi_specs = [],
        gi_rel_path_cache = Map.empty,
        gi_root_path = None\<rparr>
       gitignore_path"

text \<open>\<open>GitIgnore._get_relative_path_cached\<close>: the result and the object with its cache.\<close>

definition get_relative_path_cached ::
  "gitignore \<Rightarrow> path \<Rightarrow> path \<Rightarrow> string option \<times> gitignore" where
  "get_relative_path_cached gi p root =
     (case gi_rel_path_cache gi (p, root) of
        Some r \<Rightarrow> (r, gi)
      | None \<Rightarrow>
          (let rel = map_option as_posix (relative_to p root)
           in (rel, gi\<lparr>gi_rel_path_cache := (gi_rel_path_cache gi)((p, root) \<mapsto> rel)\<rparr>)))"

text \<open>
  \<open>GitIgnore.excluded\<close>: the loop over \<open>self._specs\<close>, on the resolved path \<open>p\<close>, and the
  method itself.
\<close>

fun excluded_specs ::
  "matcher \<Rightarrow> path \<Rightarrow> bool \<Rightarrow> (path \<times> pathspec) list \<Rightarrow> gitignore \<Rightarrow> bool \<times> gitignore" where
  "excluded_specs match_file p is_dir [] gi = (False, gi)"
| "excluded_specs match_file p is_dir ((root, spec) # rest) gi =
     (case get_relative_path_cached gi p root of
        (None, gi') \<Rightarrow> excluded_specs match_file p is_dir rest gi'
      | (Some rel, gi') \<Rightarrow>
          if match_file spec rel then (True, gi')
          else if is_dir \<and> match_file spec (rel @ ''/'') then (True, gi')
          else excluded_specs match_file p is_dir rest gi')"

definition gitignore_excluded ::
  "filesystem \<Rightarrow> matcher \<Rightarrow> gitignore \<Rightarrow> path \<Rightarrow> bool \<times> gitignore" where
  "gitignore_excluded fs match_file gi item_path =
     (if \<not> gi_enabled gi then (False, gi)
      else
        (let p = fs_resolve fs item_path;
             is_dir = fs_is_dir fs p
         in excluded_specs match_file p is_dir (gi_specs gi) gi))"


text \<open>
  \<open>GitIgnore._within_depth\<close>: unbounded when the configured depth is \<open>None\<close>; a path
  that is not below the root is not within depth (the \<open>except\<close> branch).
\<close>

definition within_depth :: "gitignore \<Rightarrow> path \<Rightarrow> path \<Rightarrow> bool" where
  "within_depth gi root dirpath =
     (case gi_gitignore_depth gi of
        None \<Rightarrow> True
      | Some n \<Rightarrow>
          (case relative_to dirpath root of
             Some parts \<Rightarrow> int (length parts) \<le> n
           | None \<Rightarrow> False))"

text \<open>
  \<open>GitIgnore._walk_dirs\<close>: the \<open>while stack\<close> loop. The head of the model's stack is the
  last element of the Python list, so \<open>stack.pop()\<close> takes the head and the children are
  pushed in listing order. The result is the sequence of directories the generator yields.
  Every iteration uses one unit of fuel; \<open>None\<close> means the fuel ran out before the stack
  was empty.
\<close>

definition subdirs :: "filesystem \<Rightarrow> path \<Rightarrow> string list \<Rightarrow> path list" where
  "subdirs fs d names =
     filter (\<lambda>c. fs_is_dir fs c \<and> \<not> fs_is_symlink fs c) (map (joinpath d) names)"

fun walk_loop ::
  "filesystem \<Rightarrow> gitignore \<Rightarrow> path \<Rightarrow> nat \<Rightarrow> path list \<Rightarrow> path set \<Rightarrow> path list option" where
  "walk_loop fs gi root n [] visited = Some []"
| "walk_loop fs gi root 0 (d # stack) visited = None"
| "walk_loop fs gi root (Suc n) (d # stack) visited =
     (if d \<in> visited then walk_loop fs gi root n stack visited
      else
        map_option ((#) d)
          (if \<not> within_depth gi root d then walk_loop fs gi root n stack (insert d visited)
           else
             (case fs_iterdir fs d of
                None \<Rightarrow> walk_loop fs gi root n stack (insert d visited)
              | Some names \<Rightarrow>
                  walk_loop fs gi root n (rev (subdirs fs d names) @ stack)
                    (insert d visited))))"

definition walk_dirs :: "filesystem \<Rightarrow> gitignore \<Rightarrow> path \<Rightarrow> nat \<Rightarrow> path list option" where
  "walk_dirs fs gi root fuel = walk_loop fs gi root fuel [root] {}"

text \<open>
  \<open>GitIgnore._collect_patterns\<close>: the inner loop over the patterns of one file, the outer
  loop over the walked directories, and the method. \<open>d.relative_to(root)\<close> raises
  \<open>ValueError\<close> for a directory that is not below the root.
\<close>

datatype message = PathDoesNotExist path | NoCommonPath | NoIncludedPaths

datatype exn = SystemExit nat message | ValueError | TypeError | IndexError

fun prefix_patterns :: "string \<Rightarrow> string list \<Rightarrow> string list" where
  "prefix_patterns pre [] = []"
| "prefix_patterns pre (pat # pats) =
     (let neg = startswith pat ''!'';
          base_pat = (if neg then drop 1 pat else pat);
          prefixed_pat = pre @ lstrip CHR ''/'' base_pat
      in (if neg then ''!'' @ prefixed_pat else prefixed_pat) # prefix_patterns pre pats)"

fun collect_loop :: "filesystem \<Rightarrow> path \<Rightarrow> path list \<Rightarrow> exn + string list" where
  "collect_loop fs root [] = Inr []"
| "collect_loop fs root (d # ds) =
     (let g = joinpath d ''.gitignore''
      in if \<not> fs_is_file fs g then collect_loop fs root ds
         else
           (case relative_to d root of
              None \<Rightarrow> Inl ValueError
            | Some parts \<Rightarrow>
                (let rel_dir = as_posix parts;
                     pre = (if rel_dir = ''.'' then [] else rel_dir @ ''/'');
                     file_patterns = parse_gitignore_file fs g
                 in (case collect_loop fs root ds of
                       Inl e \<Rightarrow> Inl e
                     | Inr patterns \<Rightarrow> Inr (prefix_patterns pre file_patterns @ patterns)))))"

definition collect_patterns ::
  "filesystem \<Rightarrow> gitignore \<Rightarrow> path \<Rightarrow> nat \<Rightarrow> (exn + string list) option" where
  "collect_patterns fs gi root fuel = map_option (collect_loop fs root) (walk_dirs fs gi root fuel)"


section \<open>GitIgnoreMatcher: several scopes and a result cache\<close>

text \<open>
  The exclusion cache is a Python \<open>dict\<close> whose size the code reads: an association list
  with \<open>map_of\<close> for lookup and \<open>AList.update\<close> for assignment. A key is only ever
  assigned when it is absent, so the length of the list is \<open>len\<close> of the dict.
\<close>

record gitignore_matcher =
  gm_gitignores :: "(path \<times> gitignore) list"
  gm_exclusion_cache :: "(path \<times> bool) list"
  gm_max_cache_size :: nat

definition GitIgnoreMatcher :: gitignore_matcher where
  "GitIgnoreMatcher =
     \<lparr>gm_gitignores = [], gm_exclusion_cache = [], gm_max_cache_size = 10000\<rparr>"

definition add_gitignore :: "gitignore_matcher \<Rightarrow> gitignore \<Rightarrow> path \<Rightarrow> gitignore_matcher" where
  "add_gitignore gm gi root_path =
     gm\<lparr>gm_gitignores := gm_gitignores gm @ [(root_path, gi)], gm_exclusion_cache := []\<rparr>"

definition is_path_in_scope :: "path \<Rightarrow> path \<Rightarrow> bool" where
  "is_path_in_scope item_path gitignore_root =
     (case relative_to item_path gitignore_root of Some _ \<Rightarrow> True | None \<Rightarrow> False)"

text \<open>
  The loop of \<open>GitIgnoreMatcher.excluded\<close> over \<open>self.gitignores\<close>; it returns the list
  again because every \<open>GitIgnore\<close> consulted may have filled its relative-path cache.
\<close>

fun excluded_gitignores ::
  "filesystem \<Rightarrow> matcher \<Rightarrow> path \<Rightarrow> (path \<times> gitignore) list \<Rightarrow> bool \<times> (path \<times> gitignore) list" where
  "excluded_gitignores fs match_file item_path [] = (False, [])"
| "excluded_gitignores fs match_file item_path ((root_path, gi) # rest) =
     (if \<not> is_path_in_scope item_path root_path
      then (case excluded_gitignores fs match_file item_path rest of
              (r, rest') \<Rightarrow> (r, (root_path, gi) # rest'))
      else
        (case gitignore_excluded fs match_file gi item_path of
           (True, gi') \<Rightarrow> (True, (root_path, gi') # rest)
         | (False, gi') \<Rightarrow>
             (case excluded_gitignores fs match_file item_path rest of
                (r, rest') \<Rightarrow> (r, (root_path, gi') # rest'))))"

definition matcher_excluded ::
  "filesystem \<Rightarrow> matcher \<Rightarrow> gitignore_matcher \<Rightarrow> path \<Rightarrow> bool \<times> gitignore_matcher" where
  "matcher_excluded fs match_file gm item_path =
     (case map_of (gm_exclusion_cache gm) item_path of
        Some r \<Rightarrow> (r, gm)
      | None \<Rightarrow>
          (case excluded_gitignores fs match_file item_path (gm_gitignores gm) of
             (result, gis') \<Rightarrow>
               (result,
                gm\<lparr>gm_gitignores := gis',
                   gm_exclusion_cache :=
                     (if length (gm_exclusion_cache gm) < gm_max_cache_size gm
                      then AList.update item_path result (gm_exclusion_cache gm)
                      else AList.update item_path result [])\<rparr>)))"


section \<open>PathResolver\<close>

text \<open>
  The resolver keeps the working directory it was created in, its two caches, and the
  warnings it has sent to the logger.
\<close>

datatype log_entry = NoGlobMatches string

record path_resolver =
  pr_base_path :: path
  pr_resolved_cache :: "string \<rightharpoonup> path"
  pr_glob_cache :: "string \<rightharpoonup> path list"
  pr_warnings :: "log_entry list"

definition PathResolver :: "filesystem \<Rightarrow> path_resolver" where
  "PathResolver fs =
     \<lparr>pr_base_path = fs_cwd fs,
      pr_resolved_cache = Map.empty,
      pr_glob_cache = Map.empty,
      pr_warnings = []\<rparr>"

text \<open>
  Modelled from the spec: \<open>error_and_exit\<close> of \<open>utilities.functions_utility\<close>, which
  reports the message to the user and terminates the process with a non-zero status; the
  model raises \<open>SystemExit 1\<close> with the message.
\<close>

definition error_and_exit :: "message \<Rightarrow> exn" where
  "error_and_exit msg = SystemExit 1 msg"

definition resolve_single_path ::
  "filesystem \<Rightarrow> path_resolver \<Rightarrow> string \<Rightarrow> exn + path \<times> path_resolver" where
  "resolve_single_path fs pr path_str =
     (case pr_resolved_cache pr path_str of
        Some p \<Rightarrow> Inr (p, pr)
      | None \<Rightarrow>
          (let p = fs_path fs path_str
           in if \<not> fs_exists fs p then Inl (error_and_exit (PathDoesNotExist p))
              else
                (let resolved_path = fs_resolve fs (join_paths (pr_base_path pr) p)
                 in Inr (resolved_path,
                         pr\<lparr>pr_resolved_cache :=
                              (pr_resolved_cache pr)(path_str \<mapsto> resolved_path)\<rparr>))))"

definition resolve_glob ::
  "filesystem \<Rightarrow> path_resolver \<Rightarrow> string \<Rightarrow> path list \<times> path_resolver" where
  "resolve_glob fs pr pattern =
     (case pr_glob_cache pr pattern of
        Some ps \<Rightarrow> (ps, pr)
      | None \<Rightarrow>
          (let matched_paths = fs_glob fs pattern
           in if matched_paths = []
              then ([], pr\<lparr>pr_warnings := pr_warnings pr @ [NoGlobMatches pattern]\<rparr>)
              else
                (let result = map (\<lambda>m. fs_resolve fs (fs_path fs m)) matched_paths
                 in (result, pr\<lparr>pr_glob_cache := (pr_glob_cache pr)(pattern \<mapsto> result)\<rparr>))))"

definition is_glob :: "string \<Rightarrow> bool" where
  "is_glob path_str \<longleftrightarrow> list_ex (\<lambda>c. c \<in> set path_str) ''*?[''"

definition is_under :: "path \<Rightarrow> path list \<Rightarrow> bool" where
  "is_under p parents \<longleftrightarrow> list_ex (\<lambda>q. p = q \<or> is_relative_to p q) parents"

definition is_hidden :: "path \<Rightarrow> bool" where
  "is_hidden p \<longleftrightarrow> startswith (name p) ''.''"

text \<open>
  \<open>PathResolver.resolve_paths\<close>: the loop that fills \<open>calculated_paths\<close>, and the method.
  \<open>exit(1)\<close> after the \<open>ValueError\<close> of \<open>commonpath\<close> is \<open>SystemExit 1\<close>.
\<close>

fun resolve_loop ::
  "filesystem \<Rightarrow> path_resolver \<Rightarrow> string list \<Rightarrow> path list \<Rightarrow> exn + path list \<times> path_resolver" where
  "resolve_loop fs pr [] calculated_paths = Inr (calculated_paths, pr)"
| "resolve_loop fs pr (path_str # rest) calculated_paths =
     (if is_glob path_str
      then (case resolve_glob fs pr path_str of
              (paths, pr') \<Rightarrow> resolve_loop fs pr' rest (calculated_paths @ paths))
      else (case resolve_single_path fs pr path_str of
              Inl e \<Rightarrow> Inl e
            | Inr (p, pr') \<Rightarrow> resolve_loop fs pr' rest (calculated_paths @ [p])))"

definition resolve_paths ::
  "filesystem \<Rightarrow> path_resolver \<Rightarrow> string list \<Rightarrow> exn + path list \<times> path_resolver" where
  "resolve_paths fs pr path_strings =
     (if path_strings = [] then Inr ([pr_base_path pr], pr)
      else
        (case resolve_loop fs pr path_strings [] of
           Inl e \<Rightarrow> Inl e
         | Inr (calculated_paths, pr') \<Rightarrow>
             if calculated_paths \<noteq> []
             then (case commonpath calculated_paths of
                     None \<Rightarrow> Inl (SystemExit 1 NoCommonPath)
                   | Some common_parent \<Rightarrow> Inr (calculated_paths @ [common_parent], pr'))
             else Inr (calculated_paths, pr')))"


section \<open>FilterApplier\<close>

record filter_applier =
  fa_config :: config
  fa_file_extensions_set :: "string set option"

definition FilterApplier :: "lowercase \<Rightarrow> config \<Rightarrow> filter_applier" where
  "FilterApplier lower cfg =
     \<lparr>fa_config = cfg,
      fa_file_extensions_set =
        (if cfg_file_extensions cfg \<noteq> []
         then Some (set (map (\<lambda>ext. lstrip CHR ''.'' (lower ext)) (cfg_file_extensions cfg)))
         else None)\<rparr>"

text \<open>Truth value of \<open>self.file_extensions_set\<close>: \<open>None\<close> and the empty set are false.\<close>

definition extensions_given :: "filter_applier \<Rightarrow> bool" where
  "extensions_given fa \<longleftrightarrow>
     (case fa_file_extensions_set fa of None \<Rightarrow> False | Some exts \<Rightarrow> exts \<noteq> {})"

definition in_extensions :: "filter_applier \<Rightarrow> string \<Rightarrow> bool" where
  "in_extensions fa ext \<longleftrightarrow>
     (case fa_file_extensions_set fa of None \<Rightarrow> False | Some exts \<Rightarrow> ext \<in> exts)"

text \<open>
  \<open>FilterApplier.should_include_item\<close>, filter by filter in the order of the source. A
  comparison \<open>curr_depth <= depth\<close> with \<open>depth\<close> being \<open>None\<close> raises \<open>TypeError\<close>. The
  matcher is returned with the result because \<open>gitignore_matcher.excluded\<close> updates its
  caches.
\<close>

definition should_include_item ::
  "filesystem \<Rightarrow> matcher \<Rightarrow> lowercase \<Rightarrow> filter_applier \<Rightarrow> path \<Rightarrow> int \<Rightarrow> bool \<Rightarrow>
   gitignore_matcher \<Rightarrow> path list \<Rightarrow> path list \<Rightarrow> bool \<Rightarrow> exn + bool \<times> gitignore_matcher" where
  "should_include_item fs match_file lower fa item_path curr_depth is_dir gm
       exclude_paths resolved_include_paths dir_under_given_paths =
     (if \<not> is_dir \<and> cfg_no_files (fa_config fa) then Inr (False, gm)
      else if \<not> is_dir \<and> extensions_given fa \<and>
              (let nm = name item_path; dot_idx = rfind nm CHR ''.''
               in if 0 < dot_idx
                  then \<not> in_extensions fa (lower (drop (nat (dot_idx + 1)) nm))
                  else True)
      then Inr (False, gm)
      else if \<not> dir_under_given_paths \<and> \<not> extensions_given fa \<and>
              ((\<not> is_dir \<and> item_path \<notin> set resolved_include_paths) \<or>
               (is_dir \<and> \<not> list_ex (\<lambda>t. is_under t [item_path]) resolved_include_paths))
      then Inr (False, gm)
      else if \<not> cfg_hidden_items (fa_config fa) \<and> is_hidden item_path \<and>
              item_path \<notin> set resolved_include_paths
      then Inr (False, gm)
      else
        (case cfg_exclude_depth (fa_config fa) of
           None \<Rightarrow> Inl TypeError
         | Some exclude_depth \<Rightarrow>
             if curr_depth \<le> exclude_depth \<and> is_under item_path exclude_paths
             then Inr (False, gm)
             else
               (case cfg_gitignore_depth (fa_config fa) of
                  None \<Rightarrow> Inl TypeError
                | Some gitignore_depth \<Rightarrow>
                    (case (if curr_depth \<le> gitignore_depth
                           then matcher_excluded fs match_file gm item_path
                           else (False, gm)) of
                       (True, gm') \<Rightarrow> Inr (False, gm')
                     | (False, gm') \<Rightarrow>
                         if \<not> extensions_given fa \<and> \<not> is_under item_path resolved_include_paths
                         then Inr (False, gm')
                         else Inr (True, gm')))))"


section \<open>ItemsSelectionService\<close>

text \<open>
  \<open>ItemsSelectionService.run\<close>. The traversal (\<open>DirectoryTraverser.traverse\<close>) is a
  parameter: it receives the root, the resolved include paths, the exclude paths without
  their last element, and a new matcher. Indexing the empty list with \<open>[-1]\<close> raises
  \<open>IndexError\<close>.
\<close>

definition run ::
  "filesystem \<Rightarrow> (path \<Rightarrow> path list \<Rightarrow> path list \<Rightarrow> gitignore_matcher \<Rightarrow> 'r) \<Rightarrow> config \<Rightarrow> exn + 'r" where
  "run fs traverse cfg =
     (case resolve_paths fs (PathResolver fs) (cfg_paths cfg @ cfg_include cfg) of
        Inl e \<Rightarrow> Inl e
      | Inr (resolved_include_paths, pr1) \<Rightarrow>
          if resolved_include_paths = [] then Inl IndexError
          else
            (case resolve_paths fs pr1 (cfg_exclude cfg) of
               Inl e \<Rightarrow> Inl e
             | Inr (resolved_exclude_paths, pr2) \<Rightarrow>
                 if resolved_include_paths = [] then Inl (SystemExit 1 NoIncludedPaths)
                 else
                   Inr (traverse (last resolved_include_paths) resolved_include_paths
                          (butlast resolved_exclude_paths) GitIgnoreMatcher)))"


section \<open>A concrete file system\<close>

text \<open>
  \<open>Path(s)\<close> on POSIX: the anchor is the leading slash, empty segments and single dots
  are dropped.
\<close>

fun split_on :: "char \<Rightarrow> string \<Rightarrow> string list" where
  "split_on c [] = [[]]"
| "split_on c (x # xs) =
     (if x = c then [] # split_on c xs
      else (case split_on c xs of [] \<Rightarrow> [[x]] | y # ys \<Rightarrow> (x # y) # ys))"

definition posix_path :: "string \<Rightarrow> path" where
  "posix_path s =
     Path (if startswith s ''/'' then ''/'' else [])
          (filter (\<lambda>seg. seg \<noteq> [] \<and> seg \<noteq> ''.'') (split_on CHR ''/'' s))"

text \<open>
  The tree used at concrete inputs, with working directory \<open>/root\<close>:
  \<^verbatim>\<open>
  /root/.gitignore        "*.log", "!keep.log"
  /root/foo
  /root/a.PY
  /root/link              symbolic link to the file /root/sub/foo
  /root/ln                symbolic link to the directory /root/sub
  /root/sub/.gitignore    "foo"
  /root/sub/foo
  /root/sub/deep/.gitignore   "# build output", "/bar", "!/bar/keep"
  /root/sub/deep/bar/
  \<close>
\<close>

definition demo_dirs :: "path list" where
  "demo_dirs =
     [Path ''/'' [], Path ''/'' [''root''], Path ''/'' [''root'', ''sub''],
      Path ''/'' [''root'', ''sub'', ''deep''], Path ''/'' [''root'', ''sub'', ''deep'', ''bar''],
      Path ''/'' [''root'', ''ln'']]"

definition demo_files :: "path list" where
  "demo_files =
     [Path ''/'' [''root'', ''.gitignore''], Path ''/'' [''root'', ''foo''],
      Path ''/'' [''root'', ''a.PY''], Path ''/'' [''root'', ''link''],
      Path ''/'' [''root'', ''sub'', ''.gitignore''], Path ''/'' [''root'', ''sub'', ''foo''],
      Path ''/'' [''root'', ''sub'', ''deep'', ''.gitignore'']]"

definition demo_links :: "(path \<times> path) list" where
  "demo_links =
     [(Path ''/'' [''root'', ''link''], Path ''/'' [''root'', ''sub'', ''foo'']),
      (Path ''/'' [''root'', ''ln''], Path ''/'' [''root'', ''sub''])]"

definition demo_fs :: filesystem where
  "demo_fs =
     \<lparr>fs_cwd = Path ''/'' [''root''],
      fs_path = posix_path,
      fs_exists = (\<lambda>p. join_paths (Path ''/'' [''root'']) p \<in> set (demo_dirs @ demo_files)),
      fs_is_dir = (\<lambda>p. join_paths (Path ''/'' [''root'']) p \<in> set demo_dirs),
      fs_is_file = (\<lambda>p. join_paths (Path ''/'' [''root'']) p \<in> set demo_files),
      fs_is_symlink = (\<lambda>p. join_paths (Path ''/'' [''root'']) p \<in> fst ` set demo_links),
      fs_resolve =
        (\<lambda>p. let q = join_paths (Path ''/'' [''root'']) p
             in (case map_of demo_links q of Some t \<Rightarrow> t | None \<Rightarrow> q)),
      fs_iterdir =
        map_of
          [(Path ''/'' [''root''], [''.gitignore'', ''foo'', ''a.PY'', ''link'', ''ln'', ''sub'']),
           (Path ''/'' [''root'', ''sub''], [''.gitignore'', ''foo'', ''deep'']),
           (Path ''/'' [''root'', ''sub'', ''deep''], [''.gitignore'', ''bar'']),
           (Path ''/'' [''root'', ''sub'', ''deep'', ''bar''], [])],
      fs_read_lines =
        map_of
          [(Path ''/'' [''root'', ''.gitignore''], [''*.log'', ''!keep.log'']),
           (Path ''/'' [''root'', ''sub'', ''.gitignore''], [''foo'']),
           (Path ''/'' [''root'', ''sub'', ''deep'', ''.gitignore''],
            [''# build output'', ''/bar'', ''!/bar/keep''])],
      fs_glob =
        (\<lambda>pat. if pat = ''sub/*'' then [''sub/.gitignore'', ''sub/foo'', ''sub/deep'']
               else if pat = ''*.PY'' then [''a.PY'']
               else [])\<rparr>"

text \<open>
  A matcher for patterns without wildcards, anchored at the scope root: the relative path
  matches when it is one of the pattern lines.
\<close>

definition literal_match :: matcher where
  "literal_match spec rel \<longleftrightarrow> rel \<in> set spec"

text \<open>
  \<open>str.lower()\<close> on text whose only cased letters are ASCII, and on the Greek word used
  below: the capitals alpha sigma (CE 91 CE A3) lower to alpha and a final sigma
  (CE B1 CF 82), while the lowercase spelling alpha sigma (CE B1 CF 83) is unchanged.
\<close>

definition ascii_lower_char :: "char \<Rightarrow> char" where
  "ascii_lower_char c =
     (case map_of (zip ''ABCDEFGHIJKLMNOPQRSTUVWXYZ'' ''abcdefghijklmnopqrstuvwxyz'') c of
        Some l \<Rightarrow> l
      | None \<Rightarrow> c)"

definition ascii_lower :: lowercase where
  "ascii_lower s = map ascii_lower_char s"


text \<open>
  A second tree, with working directory \<open>/root\<close>, in which a directory name starts with
  an exclamation mark:
  \<^verbatim>\<open>
  /root/!x/.gitignore     "bar"
  /root/!x/bar
  /root/x/bar
  \<close>
\<close>

definition bang_fs :: filesystem where
  "bang_fs =
     \<lparr>fs_cwd = Path ''/'' [''root''],
      fs_path = posix_path,
      fs_exists =
        (\<lambda>p. p \<in> set [Path ''/'' [''root''], Path ''/'' [''root'', ''!x''],
                       Path ''/'' [''root'', ''x''], Path ''/'' [''root'', ''!x'', ''.gitignore''],
                       Path ''/'' [''root'', ''!x'', ''bar''], Path ''/'' [''root'', ''x'', ''bar'']]),
      fs_is_dir =
        (\<lambda>p. p \<in> set [Path ''/'' [''root''], Path ''/'' [''root'', ''!x''],
                       Path ''/'' [''root'', ''x'']]),
      fs_is_file =
        (\<lambda>p. p \<in> set [Path ''/'' [''root'', ''!x'', ''.gitignore''],
                       Path ''/'' [''root'', ''!x'', ''bar''], Path ''/'' [''root'', ''x'', ''bar'']]),
      fs_is_symlink = (\<lambda>p. False),
      fs_resolve = (\<lambda>p. join_paths (Path ''/'' [''root'']) p),
      fs_iterdir =
        map_of
          [(Path ''/'' [''root''], [''!x'', ''x'']),
           (Path ''/'' [''root'', ''!x''], [''.gitignore'', ''bar'']),
           (Path ''/'' [''root'', ''x''], [''bar''])],
      fs_read_lines = map_of [(Path ''/'' [''root'', ''!x'', ''.gitignore''], [''bar''])],
      fs_glob = (\<lambda>pat. [])\<rparr>"

definition demo_cfg :: config where
  "demo_cfg =
     \<lparr>cfg_paths = [''.''], cfg_include = [], cfg_exclude = [],
      cfg_gitignore = True, cfg_gitignore_depth = Some 5, cfg_exclude_depth = Some 5,
      cfg_hidden_items = False, cfg_no_files = False, cfg_file_extensions = []\<rparr>"


section \<open>Reference definitions\<close>

text \<open>
  What one input string resolves to without the caches: every match of a glob, or the one
  resolved literal path. The caches of a resolver agree with the file system when every
  stored entry is what this resolution gives.
\<close>

definition resolved_of :: "filesystem \<Rightarrow> path \<Rightarrow> string \<Rightarrow> path list" where
  "resolved_of fs base s =
     (if is_glob s then map (\<lambda>m. fs_resolve fs (fs_path fs m)) (fs_glob fs s)
      else [fs_resolve fs (join_paths base (fs_path fs s))])"

definition resolver_caches_ok :: "filesystem \<Rightarrow> path_resolver \<Rightarrow> bool" where
  "resolver_caches_ok fs pr \<longleftrightarrow>
     (\<forall>s p. pr_resolved_cache pr s = Some p \<longrightarrow>
        p = fs_resolve fs (join_paths (pr_base_path pr) (fs_path fs s))) \<and>
     (\<forall>s ps. pr_glob_cache pr s = Some ps \<longrightarrow>
        ps = map (\<lambda>m. fs_resolve fs (fs_path fs m)) (fs_glob fs s))"


text \<open>
  The relative-path cache of a \<open>GitIgnore\<close> agrees with \<open>relative_to\<close> when every stored
  entry is what \<open>relative_to\<close> and \<open>as_posix\<close> compute. One scope \<open>(root, spec)\<close> matches
  a resolved path when the path is below the root and its relative form, or for a
  directory that form with a trailing slash, matches the spec. A \<open>GitIgnore\<close> reports a
  path when it is enabled and one of its scopes matches the resolved path. The cache-free
  evaluation of the matcher: some registered scope whose root is the path or one of its
  ancestors reports the path.
\<close>

definition rel_cache_ok :: "gitignore \<Rightarrow> bool" where
  "rel_cache_ok gi \<longleftrightarrow>
     (\<forall>p root r. gi_rel_path_cache gi (p, root) = Some r \<longrightarrow>
        r = map_option as_posix (relative_to p root))"

definition spec_matches :: "matcher \<Rightarrow> path \<Rightarrow> bool \<Rightarrow> path \<times> pathspec \<Rightarrow> bool" where
  "spec_matches match_file p is_dir s \<longleftrightarrow>
     (case relative_to p (fst s) of
        None \<Rightarrow> False
      | Some parts \<Rightarrow>
          match_file (snd s) (as_posix parts) \<or>
          (is_dir \<and> match_file (snd s) (as_posix parts @ ''/'')))"

definition gitignore_reports :: "filesystem \<Rightarrow> matcher \<Rightarrow> gitignore \<Rightarrow> path \<Rightarrow> bool" where
  "gitignore_reports fs match_file gi item_path \<longleftrightarrow>
     gi_enabled gi \<and>
     list_ex (spec_matches match_file (fs_resolve fs item_path)
                (fs_is_dir fs (fs_resolve fs item_path)))
       (gi_specs gi)"

definition uncached_excluded ::
  "filesystem \<Rightarrow> matcher \<Rightarrow> (path \<times> gitignore) list \<Rightarrow> path \<Rightarrow> bool" where
  "uncached_excluded fs match_file gis item_path \<longleftrightarrow>
     list_ex (\<lambda>s. is_relative_to item_path (fst s) \<and>
                  gitignore_reports fs match_file (snd s) item_path) gis"

definition rules_of :: "(path \<times> gitignore) list \<Rightarrow> (path \<times> bool \<times> (path \<times> pathspec) list) list" where
  "rules_of gis = map (\<lambda>s. (fst s, gi_enabled (snd s), gi_specs (snd s))) gis"

definition matcher_ok :: "filesystem \<Rightarrow> matcher \<Rightarrow> gitignore_matcher \<Rightarrow> bool" where
  "matcher_ok fs match_file gm \<longleftrightarrow>
     list_all (\<lambda>s. rel_cache_ok (snd s)) (gm_gitignores gm) \<and>
     (\<forall>k v. map_of (gm_exclusion_cache gm) k = Some v \<longrightarrow>
        v = uncached_excluded fs match_file (gm_gitignores gm) k)"

text \<open>
  A sequence of calls on one matcher, with the answers of the \<open>excluded\<close> calls, and the
  same sequence answered without any cache from the list of scopes registered so far.
\<close>

datatype call = Add gitignore path | Query path

fun run_calls ::
  "filesystem \<Rightarrow> matcher \<Rightarrow> gitignore_matcher \<Rightarrow> call list \<Rightarrow> bool list \<times> gitignore_matcher" where
  "run_calls fs match_file gm [] = ([], gm)"
| "run_calls fs match_file gm (Add gi root_path # cs) =
     run_calls fs match_file (add_gitignore gm gi root_path) cs"
| "run_calls fs match_file gm (Query p # cs) =
     (case matcher_excluded fs match_file gm p of
        (r, gm') \<Rightarrow>
          (case run_calls fs match_file gm' cs of (rs, gm'') \<Rightarrow> (r # rs, gm'')))"

fun run_calls_uncached ::
  "filesystem \<Rightarrow> matcher \<Rightarrow> (path \<times> gitignore) list \<Rightarrow> call list \<Rightarrow> bool list" where
  "run_calls_uncached fs match_file gis [] = []"
| "run_calls_uncached fs match_file gis (Add gi root_path # cs) =
     run_calls_uncached fs match_file (gis @ [(root_path, gi)]) cs"
| "run_calls_uncached fs match_file gis (Query p # cs) =
     uncached_excluded fs match_file gis p # run_calls_uncached fs match_file gis cs"

fun well_formed_call :: "call \<Rightarrow> bool" where
  "well_formed_call (Add gi root_path) = rel_cache_ok gi"
| "well_formed_call (Query p) = True"

definition demo_calls :: "call list" where
  "demo_calls =
     [Add (GitIgnore demo_fs demo_cfg (Path ''/'' [''root'', ''sub'', ''.gitignore'']))
          (Path ''/'' [''root'', ''sub'']),
      Query (Path ''/'' [''root'', ''sub'', ''foo'']),
      Query (Path ''/'' [''root'', ''sub'', ''foo'']),
      Query (Path ''/'' [''root'', ''foo'']),
      Query (Path ''/'' [''root'', ''sub'', ''foo'']),
      Add (GitIgnore demo_fs demo_cfg (Path ''/'' [''root'', ''.gitignore'']))
          (Path ''/'' [''root'']),
      Query (Path ''/'' [''root'', ''sub'', ''foo''])]"

text \<open>
  In the walk, \<open>d\<close> is a child of \<open>p\<close> when \<open>p\<close> is within the depth and \<open>d\<close> is one of
  the entries of \<open>p\<close> that the loop pushes: a directory that is not a symbolic link.
\<close>

definition child_of :: "filesystem \<Rightarrow> gitignore \<Rightarrow> path \<Rightarrow> path \<Rightarrow> path \<Rightarrow> bool" where
  "child_of fs gi root p d \<longleftrightarrow>
     within_depth gi root p \<and>
     (\<exists>names. fs_iterdir fs p = Some names \<and> d \<in> set (subdirs fs p names))"

text \<open>
  The directories the walk pushes when it visits \<open>d\<close>: none beyond the depth or when the
  listing fails.
\<close>

definition pushed :: "filesystem \<Rightarrow> gitignore \<Rightarrow> path \<Rightarrow> path \<Rightarrow> path list" where
  "pushed fs gi root d =
     (if within_depth gi root d
      then (case fs_iterdir fs d of None \<Rightarrow> [] | Some names \<Rightarrow> subdirs fs d names)
      else [])"

text \<open>
  The rewriting of a nested pattern in the words of the specification: the body of the
  pattern, without leading slashes, is prefixed with the directory of its file relative to
  the root, every segment followed by a slash (nothing for the root itself), and a
  negation mark stays in front.
\<close>

definition prefixed :: "string \<Rightarrow> string \<Rightarrow> string" where
  "prefixed pre pat =
     (if pat \<noteq> [] \<and> hd pat = CHR ''!'' then ''!'' @ pre @ lstrip CHR ''/'' (tl pat)
      else pre @ lstrip CHR ''/'' pat)"

definition dir_prefix :: "string list \<Rightarrow> string" where
  "dir_prefix parts = concat (map (\<lambda>s. s @ ''/'') parts)"

definition nested_patterns :: "filesystem \<Rightarrow> path \<Rightarrow> path \<Rightarrow> string list" where
  "nested_patterns fs root d =
     (if fs_is_file fs (joinpath d ''.gitignore'')
      then map (prefixed (dir_prefix (drop (length (segments root)) (segments d))))
             (parse_gitignore_file fs (joinpath d ''.gitignore''))
      else [])"

text \<open>
  The filters of \<open>should_include_item\<close> that remain when an extension allow-list is given
  (the membership and include-path filters are then skipped): the hidden-item filter, the
  exclude filter and the gitignore filter, each with its depth comparison defined.
\<close>

definition other_filters_pass ::
  "filesystem \<Rightarrow> matcher \<Rightarrow> config \<Rightarrow> path \<Rightarrow> int \<Rightarrow> gitignore_matcher \<Rightarrow>
   path list \<Rightarrow> path list \<Rightarrow> bool" where
  "other_filters_pass fs match_file cfg item_path curr_depth gm exclude_paths include_paths \<longleftrightarrow>
     \<not> (\<not> cfg_hidden_items cfg \<and> is_hidden item_path \<and> item_path \<notin> set include_paths) \<and>
     (\<exists>exclude_depth. cfg_exclude_depth cfg = Some exclude_depth \<and>
        \<not> (curr_depth \<le> exclude_depth \<and> is_under item_path exclude_paths)) \<and>
     (\<exists>gitignore_depth. cfg_gitignore_depth cfg = Some gitignore_depth \<and>
        \<not> (curr_depth \<le> gitignore_depth \<and>
           fst (matcher_excluded fs match_file gm item_path)))"

section \<open>Properties of the string operations\<close>

lemma rfind_neg: "rfind s c < 0 \<longleftrightarrow> c \<notin> set s"
  by (induction s) (auto simp: Let_def)

lemma rfind_pos:
  "0 \<le> rfind s c \<Longrightarrow>
     nat (rfind s c) < length s \<and> s ! nat (rfind s c) = c \<and>
     c \<notin> set (drop (Suc (nat (rfind s c))) s)"
proof (induction s)
  case Nil
  then show ?case by simp
next
  case (Cons x xs)
  show ?case
  proof (cases "0 \<le> rfind xs c")
    case True
    with Cons.IH have ih: "nat (rfind xs c) < length xs" "xs ! nat (rfind xs c) = c"
      "c \<notin> set (drop (Suc (nat (rfind xs c))) xs)" by auto
    from True have eq: "rfind (x # xs) c = rfind xs c + 1" by (simp add: Let_def)
    have n: "nat (rfind xs c + 1) = Suc (nat (rfind xs c))" using True by simp
    show ?thesis unfolding eq n using ih by simp
  next
    case False
    then have "c \<notin> set xs" using rfind_neg[of xs c] by simp
    moreover from False Cons.prems have "x = c" "rfind (x # xs) c = 0"
      by (auto simp: Let_def split: if_splits)
    ultimately show ?thesis by simp
  qed
qed

text \<open>The index found by \<open>rfind\<close> is the only one with no later occurrence.\<close>

lemma rfind_unique:
  assumes "i < length s" "s ! i = c" "c \<notin> set (drop (Suc i) s)"
  shows "rfind s c = int i"
  using assms
proof (induction s arbitrary: i)
  case Nil
  then show ?case by simp
next
  case (Cons x xs)
  show ?case
  proof (cases i)
    case 0
    with Cons.prems have "c \<notin> set xs" "x = c" by simp_all
    then show ?thesis using rfind_neg[of xs c] 0 by (simp add: Let_def)
  next
    case (Suc j)
    with Cons.prems have "j < length xs" "xs ! j = c" "c \<notin> set (drop (Suc j) xs)" by simp_all
    from Cons.IH[OF this] Suc show ?thesis by (simp add: Let_def)
  qed
qed



section \<open>The extension filter\<close>


lemma fa_config_FilterApplier: "fa_config (FilterApplier lower cfg) = cfg"
  by (simp add: FilterApplier_def)

lemma extensions_given_FilterApplier:
  "extensions_given (FilterApplier lower cfg) \<longleftrightarrow> cfg_file_extensions cfg \<noteq> []"
  by (simp add: extensions_given_def FilterApplier_def)

lemma in_extensions_FilterApplier:
  "cfg_file_extensions cfg \<noteq> [] \<Longrightarrow>
   in_extensions (FilterApplier lower cfg) e \<longleftrightarrow>
     e \<in> set (map (\<lambda>ext. lstrip CHR ''.'' (lower ext)) (cfg_file_extensions cfg))"
  by (simp add: in_extensions_def FilterApplier_def)

text \<open>
  With an allow-list given, the verdict is \<open>True\<close> exactly when the files-only filter and
  the extension filter (both for files only) and the remaining filters pass.
\<close>

lemma included_with_extensions:
  assumes "extensions_given fa"
  shows "(\<exists>gm'. should_include_item fs mf lower fa item d is_dir gm ex inc u = Inr (True, gm')) \<longleftrightarrow>
         (is_dir \<or>
            \<not> cfg_no_files (fa_config fa) \<and> 0 < rfind (name item) CHR ''.'' \<and>
            in_extensions fa (lower (drop (nat (rfind (name item) CHR ''.'' + 1)) (name item)))) \<and>
         other_filters_pass fs mf (fa_config fa) item d gm ex inc"
proof (cases "matcher_excluded fs mf gm item")
  case (Pair b g)
  with assms show ?thesis
    unfolding should_include_item_def other_filters_pass_def
    by (cases b) (auto simp: Let_def split: option.splits)
qed

lemma last_dot_index:
  "(0 < rfind nm CHR ''.'' \<and> P (drop (nat (rfind nm CHR ''.'' + 1)) nm)) \<longleftrightarrow>
   (\<exists>i. 0 < i \<and> i < length nm \<and> nm ! i = CHR ''.'' \<and> CHR ''.'' \<notin> set (drop (Suc i) nm) \<and>
        P (drop (Suc i) nm))"
proof
  assume h: "0 < rfind nm CHR ''.'' \<and> P (drop (nat (rfind nm CHR ''.'' + 1)) nm)"
  let ?k = "rfind nm CHR ''.''"
  from h have nn: "0 \<le> ?k" by simp
  then have suc: "nat (?k + 1) = Suc (nat ?k)" by arith
  from rfind_pos[OF nn] h show "\<exists>i. 0 < i \<and> i < length nm \<and> nm ! i = CHR ''.'' \<and>
      CHR ''.'' \<notin> set (drop (Suc i) nm) \<and> P (drop (Suc i) nm)"
    unfolding suc by (intro exI[of _ "nat ?k"]) simp
next
  assume "\<exists>i. 0 < i \<and> i < length nm \<and> nm ! i = CHR ''.'' \<and>
      CHR ''.'' \<notin> set (drop (Suc i) nm) \<and> P (drop (Suc i) nm)"
  then obtain i where i: "0 < i" "i < length nm" "nm ! i = CHR ''.''"
    "CHR ''.'' \<notin> set (drop (Suc i) nm)" "P (drop (Suc i) nm)" by blast
  from rfind_unique[OF i(2,3,4)] have "rfind nm CHR ''.'' = int i" .
  with i(1,5) show "0 < rfind nm CHR ''.'' \<and> P (drop (nat (rfind nm CHR ''.'' + 1)) nm)"
    by (simp add: nat_add_distrib)
qed

lemma ascii_lower_py:
  "ascii_lower ''py'' = ''py''" "ascii_lower ''PY'' = ''py''" "ascii_lower ''.py'' = ''.py''"
  "ascii_lower ''.PY'' = ''.py''" "ascii_lower ''..Py'' = ''..py''"
  by (simp_all add: ascii_lower_def ascii_lower_char_def)

lemma demo_other_filters_pass:
  "name item \<noteq> [] \<Longrightarrow> hd (name item) \<noteq> CHR ''.'' \<Longrightarrow>
   other_filters_pass demo_fs literal_match (demo_cfg\<lparr>cfg_file_extensions := exts\<rparr>) item 1
     GitIgnoreMatcher [] inc"
  by (cases "name item")
     (simp_all add: other_filters_pass_def demo_cfg_def is_hidden_def startswith_def is_under_def
       matcher_excluded_def GitIgnoreMatcher_def)

text \<open>
  Claim C5. With a non-empty extension allow-list, \<open>should_include_item\<close> keeps a file
  exactly when files are not suppressed, its name has its last dot at an index greater
  than 0 with the lowercased text after that dot in the normalized allow-list, and the
  hidden, exclude and gitignore filters pass. A directory is kept exactly when the hidden,
  exclude and gitignore filters pass: neither its name nor the allow-list is consulted, so
  the extension filter never rejects it. With the allow-list \<open>py\<close>, the files \<open>a\<close> and
  \<open>.hidden\<close> are rejected whatever the other arguments are, and \<open>a.PY\<close> is kept when the
  other filters pass, where \<open>str.lower()\<close> maps \<open>PY\<close> and \<open>py\<close> to \<open>py\<close>.
\<close>

theorem extension_filter_allow_list:
  assumes "cfg_file_extensions cfg \<noteq> []"
  shows
    "((\<exists>gm'. should_include_item fs mf lower (FilterApplier lower cfg) item d False gm ex inc u
               = Inr (True, gm')) \<longleftrightarrow>
        \<not> cfg_no_files cfg \<and>
        (\<exists>i. 0 < i \<and> i < length (name item) \<and> name item ! i = CHR ''.'' \<and>
             CHR ''.'' \<notin> set (drop (Suc i) (name item)) \<and>
             lower (drop (Suc i) (name item))
               \<in> set (map (\<lambda>ext. lstrip CHR ''.'' (lower ext)) (cfg_file_extensions cfg))) \<and>
        other_filters_pass fs mf cfg item d gm ex inc) \<and>
     ((\<exists>gm'. should_include_item fs mf lower (FilterApplier lower cfg) dir d True gm ex inc u
               = Inr (True, gm')) \<longleftrightarrow>
        other_filters_pass fs mf cfg dir d gm ex inc) \<and>
     (cfg_file_extensions cfg = [''py''] \<and> name plain = ''a'' \<longrightarrow>
        should_include_item fs mf lower (FilterApplier lower cfg) plain d False gm ex inc u
          = Inr (False, gm)) \<and>
     (cfg_file_extensions cfg = [''py''] \<and> name hid = ''.hidden'' \<longrightarrow>
        should_include_item fs mf lower (FilterApplier lower cfg) hid d False gm ex inc u
          = Inr (False, gm)) \<and>
     (cfg_file_extensions cfg = [''py''] \<and> lower ''py'' = ''py'' \<and> lower ''PY'' = ''py'' \<and>
      name upper = ''a.PY'' \<and> \<not> cfg_no_files cfg \<and>
      other_filters_pass fs mf cfg upper d gm ex inc \<longrightarrow>
        (\<exists>gm'. should_include_item fs mf lower (FilterApplier lower cfg) upper d False gm ex inc u
                 = Inr (True, gm')))"
proof -
  from assms have eg: "extensions_given (FilterApplier lower cfg)"
    by (simp add: extensions_given_FilterApplier)
  note inc = included_with_extensions[OF eg, unfolded fa_config_FilterApplier
      in_extensions_FilterApplier[OF assms]]
  have files: "(\<exists>gm'. should_include_item fs mf lower (FilterApplier lower cfg) it d False gm ex inc u
               = Inr (True, gm')) \<longleftrightarrow>
        \<not> cfg_no_files cfg \<and>
        (\<exists>i. 0 < i \<and> i < length (name it) \<and> name it ! i = CHR ''.'' \<and>
             CHR ''.'' \<notin> set (drop (Suc i) (name it)) \<and>
             lower (drop (Suc i) (name it))
               \<in> set (map (\<lambda>ext. lstrip CHR ''.'' (lower ext)) (cfg_file_extensions cfg))) \<and>
        other_filters_pass fs mf cfg it d gm ex inc" for it
    unfolding inc[where item = it and is_dir = False]
      last_dot_index[of "name it" "\<lambda>e. lower e
        \<in> set (map (\<lambda>ext. lstrip CHR ''.'' (lower ext)) (cfg_file_extensions cfg))", symmetric]
    by auto
  have dirs: "(\<exists>gm'. should_include_item fs mf lower (FilterApplier lower cfg) dir d True gm ex inc u
               = Inr (True, gm')) \<longleftrightarrow> other_filters_pass fs mf cfg dir d gm ex inc"
    unfolding inc[where item = dir and is_dir = True] by simp
  have plain: "should_include_item fs mf lower (FilterApplier lower cfg) plain d False gm ex inc u
          = Inr (False, gm)" if "cfg_file_extensions cfg = [''py''] \<and> name plain = ''a''"
    using that eg by (simp add: should_include_item_def Let_def)
  have hid: "should_include_item fs mf lower (FilterApplier lower cfg) hid d False gm ex inc u
          = Inr (False, gm)" if "cfg_file_extensions cfg = [''py''] \<and> name hid = ''.hidden''"
    using that eg by (simp add: should_include_item_def Let_def)
  have upper: "\<exists>gm'. should_include_item fs mf lower (FilterApplier lower cfg) upper d False gm ex inc u
                 = Inr (True, gm')"
    if h: "cfg_file_extensions cfg = [''py''] \<and> lower ''py'' = ''py'' \<and> lower ''PY'' = ''py'' \<and>
      name upper = ''a.PY'' \<and> \<not> cfg_no_files cfg \<and> other_filters_pass fs mf cfg upper d gm ex inc"
  proof -
    have "\<exists>i. 0 < i \<and> i < length (name upper) \<and> name upper ! i = CHR ''.'' \<and>
             CHR ''.'' \<notin> set (drop (Suc i) (name upper)) \<and>
             lower (drop (Suc i) (name upper))
               \<in> set (map (\<lambda>ext. lstrip CHR ''.'' (lower ext)) (cfg_file_extensions cfg))"
      using h by (intro exI[of _ 1]) (simp add: lstrip_def)
    with h show ?thesis unfolding files[of upper] by simp
  qed
  from files[of item] dirs plain hid upper show ?thesis by blast
qed

theorem extension_filter_allow_list_witness:
  "cfg_file_extensions (demo_cfg\<lparr>cfg_file_extensions := [''py'']\<rparr>) \<noteq> [] \<and>
   ascii_lower ''py'' = ''py'' \<and> ascii_lower ''PY'' = ''py'' \<and>
   \<not> cfg_no_files (demo_cfg\<lparr>cfg_file_extensions := [''py'']\<rparr>) \<and>
   other_filters_pass demo_fs literal_match (demo_cfg\<lparr>cfg_file_extensions := [''py'']\<rparr>)
     (Path ''/'' [''root'', ''a.PY'']) 1 GitIgnoreMatcher [] [Path ''/'' [''root'']] \<and>
   other_filters_pass demo_fs literal_match (demo_cfg\<lparr>cfg_file_extensions := [''py'']\<rparr>)
     (Path ''/'' [''root'', ''sub'']) 1 GitIgnoreMatcher [] [Path ''/'' [''root'']] \<and>
   (\<exists>gm'. should_include_item demo_fs literal_match ascii_lower
       (FilterApplier ascii_lower (demo_cfg\<lparr>cfg_file_extensions := [''py'']\<rparr>))
       (Path ''/'' [''root'', ''a.PY'']) 1 False GitIgnoreMatcher [] [Path ''/'' [''root'']] True
     = Inr (True, gm')) \<and>
   (\<exists>gm'. should_include_item demo_fs literal_match ascii_lower
       (FilterApplier ascii_lower (demo_cfg\<lparr>cfg_file_extensions := [''py'']\<rparr>))
       (Path ''/'' [''root'', ''sub'']) 1 True GitIgnoreMatcher [] [Path ''/'' [''root'']] True
     = Inr (True, gm')) \<and>
   (\<exists>i. 0 < i \<and> i < length ''a.PY'' \<and> ''a.PY'' ! i = CHR ''.'' \<and>
        CHR ''.'' \<notin> set (drop (Suc i) ''a.PY'') \<and>
        ascii_lower (drop (Suc i) ''a.PY'') \<in> {''py''}) \<and>
   should_include_item demo_fs literal_match ascii_lower
       (FilterApplier ascii_lower (demo_cfg\<lparr>cfg_file_extensions := [''py'']\<rparr>))
       (Path ''/'' [''root'', ''a'']) 1 False GitIgnoreMatcher [] [Path ''/'' [''root'']] True
     = Inr (False, GitIgnoreMatcher) \<and>
   should_include_item demo_fs literal_match ascii_lower
       (FilterApplier ascii_lower (demo_cfg\<lparr>cfg_file_extensions := [''py'']\<rparr>))
       (Path ''/'' [''root'', ''.hidden'']) 1 False GitIgnoreMatcher [] [Path ''/'' [''root'']] True
     = Inr (False, GitIgnoreMatcher)"
proof -
  let ?cfg = "demo_cfg\<lparr>cfg_file_extensions := [''py'']\<rparr>"
  let ?py = "Path ''/'' [''root'', ''a.PY'']"
  let ?sub = "Path ''/'' [''root'', ''sub'']"
  have h0: "cfg_file_extensions ?cfg \<noteq> []" by simp
  have nf: "\<not> cfg_no_files ?cfg" by (simp add: demo_cfg_def)
  have o1: "other_filters_pass demo_fs literal_match ?cfg ?py 1 GitIgnoreMatcher []
              [Path ''/'' [''root'']]"
    by (rule demo_other_filters_pass) (simp_all add: name_def)
  have o2: "other_filters_pass demo_fs literal_match ?cfg ?sub 1 GitIgnoreMatcher []
              [Path ''/'' [''root'']]"
    by (rule demo_other_filters_pass) (simp_all add: name_def)
  have h2: "cfg_file_extensions ?cfg = [''py''] \<and> name (Path ''/'' [''root'', ''a'']) = ''a''"
    by (simp add: name_def)
  have h3: "cfg_file_extensions ?cfg = [''py''] \<and>
            name (Path ''/'' [''root'', ''.hidden'']) = ''.hidden''"
    by (simp add: name_def)
  have h4: "cfg_file_extensions ?cfg = [''py''] \<and> ascii_lower ''py'' = ''py'' \<and>
      ascii_lower ''PY'' = ''py'' \<and> name ?py = ''a.PY'' \<and> \<not> cfg_no_files ?cfg \<and>
      other_filters_pass demo_fs literal_match ?cfg ?py 1 GitIgnoreMatcher [] [Path ''/'' [''root'']]"
    using o1 nf by (simp add: name_def ascii_lower_py)
  note t = extension_filter_allow_list[OF h0, where fs = demo_fs and mf = literal_match
      and lower = ascii_lower and item = ?py and d = 1 and gm = GitIgnoreMatcher and ex = "[]"
      and inc = "[Path ''/'' [''root'']]" and u = True and dir = ?sub
      and plain = "Path ''/'' [''root'', ''a'']" and hid = "Path ''/'' [''root'', ''.hidden'']"
      and upper = ?py]
  from t h4 have c4: "\<exists>gm'. should_include_item demo_fs literal_match ascii_lower
       (FilterApplier ascii_lower ?cfg) ?py 1 False GitIgnoreMatcher [] [Path ''/'' [''root'']] True
     = Inr (True, gm')" by blast
  from t o2 have c5: "\<exists>gm'. should_include_item demo_fs literal_match ascii_lower
       (FilterApplier ascii_lower ?cfg) ?sub 1 True GitIgnoreMatcher [] [Path ''/'' [''root'']] True
     = Inr (True, gm')" by blast
  have nm: "name ?py = ''a.PY''" by (simp add: name_def)
  have nz: "map (\<lambda>ext. lstrip CHR ''.'' (ascii_lower ext)) (cfg_file_extensions ?cfg) = [''py'']"
    by (simp add: ascii_lower_py lstrip_def)
  from t c4 have "\<exists>i. 0 < i \<and> i < length (name ?py) \<and> name ?py ! i = CHR ''.'' \<and>
        CHR ''.'' \<notin> set (drop (Suc i) (name ?py)) \<and>
        ascii_lower (drop (Suc i) (name ?py))
          \<in> set (map (\<lambda>ext. lstrip CHR ''.'' (ascii_lower ext)) (cfg_file_extensions ?cfg))"
    by blast
  then have c1: "\<exists>i. 0 < i \<and> i < length ''a.PY'' \<and> ''a.PY'' ! i = CHR ''.'' \<and>
        CHR ''.'' \<notin> set (drop (Suc i) ''a.PY'') \<and> ascii_lower (drop (Suc i) ''a.PY'') \<in> {''py''}"
    unfolding nm nz by simp
  from t h2 have c2: "should_include_item demo_fs literal_match ascii_lower
       (FilterApplier ascii_lower ?cfg) (Path ''/'' [''root'', ''a'']) 1 False GitIgnoreMatcher []
       [Path ''/'' [''root'']] True = Inr (False, GitIgnoreMatcher)" by blast
  from t h3 have c3: "should_include_item demo_fs literal_match ascii_lower
       (FilterApplier ascii_lower ?cfg) (Path ''/'' [''root'', ''.hidden'']) 1 False GitIgnoreMatcher []
       [Path ''/'' [''root'']] True = Inr (False, GitIgnoreMatcher)" by blast
  from h0 ascii_lower_py(1,2) nf o1 o2 c4 c5 c1 c2 c3 show ?thesis by blast
qed






section \<open>Unbounded depths\<close>

text \<open>
  Claim C6. With the gitignore depth unbounded (\<open>None\<close>), the comparison
  \<open>curr_depth <= self.config.gitignore_depth\<close> raises \<open>TypeError\<close> for an item that
  reaches the gitignore filter: here the file \<open>/root/foo\<close> at depth 1.
\<close>

theorem unbounded_gitignore_depth_raises:
  "should_include_item demo_fs literal_match lower
     (FilterApplier lower (demo_cfg\<lparr>cfg_gitignore_depth := None\<rparr>))
     (Path ''/'' [''root'', ''foo'']) 1 False GitIgnoreMatcher [] [Path ''/'' [''root'']] True
   = Inl TypeError"
  by (simp add: should_include_item_def FilterApplier_def demo_cfg_def extensions_given_def
      is_hidden_def name_def startswith_def is_under_def)


section \<open>Fatal conditions of the selection service\<close>

text \<open>
  A literal path that does not exist, and resolved paths without a common path, end the
  run with \<open>SystemExit 1\<close>; a glob without matches only adds a warning.
\<close>

lemma missing_literal_is_fatal:
  assumes "\<not> is_glob s" "pr_resolved_cache pr s = None" "\<not> fs_exists fs (fs_path fs s)"
  shows "resolve_paths fs pr (s # rest) = Inl (SystemExit 1 (PathDoesNotExist (fs_path fs s)))"
  using assms by (simp add: resolve_paths_def resolve_single_path_def error_and_exit_def)

lemma empty_glob_is_a_warning:
  assumes "is_glob s" "pr_glob_cache pr s = None" "fs_glob fs s = []"
  shows "resolve_paths fs pr [s] =
           Inr ([], pr\<lparr>pr_warnings := pr_warnings pr @ [NoGlobMatches s]\<rparr>)"
  using assms by (simp add: resolve_paths_def resolve_glob_def)

lemma no_common_path_is_fatal:
  assumes "resolve_loop fs pr (s # rest) [] = Inr (calc, pr')" "calc \<noteq> []"
    "commonpath calc = None"
  shows "resolve_paths fs pr (s # rest) = Inl (SystemExit 1 NoCommonPath)"
  using assms by (simp add: resolve_paths_def)

lemma run_stops_on_include_failure:
  "resolve_paths fs (PathResolver fs) (cfg_paths cfg @ cfg_include cfg) = Inl e \<Longrightarrow>
   run fs traverse cfg = Inl e"
  by (simp add: run_def)

text \<open>
  Claim C7. When the only include argument is a glob that matches nothing, the resolved
  include list is empty and \<open>run\<close> raises \<open>IndexError\<close> at \<open>resolved_include_paths[-1]\<close>,
  before its check for an empty include list is reached.
\<close>

theorem empty_include_set_raises_index_error:
  "run demo_fs traverse (demo_cfg\<lparr>cfg_paths := [''*.md'']\<rparr>) = Inl IndexError"
  by (simp add: run_def resolve_paths_def resolve_glob_def is_glob_def PathResolver_def
      demo_fs_def demo_cfg_def)


section \<open>PathResolver.resolve_paths\<close>

lemma common_segments_prefix:
  "s \<in> set ss \<Longrightarrow> prefix (common_segments ss) s"
proof (induction ss rule: common_segments.induct)
  case 1
  then show ?case by simp
next
  case (2 s')
  then show ?case by simp
next
  case (3 a t ts)
  show ?case
  proof (cases "s = a")
    case True
    then show ?thesis by (simp add: longest_common_prefix_prefix1)
  next
    case False
    with 3 have "prefix (common_segments (t # ts)) s" by simp
    moreover have "prefix (longest_common_prefix a (common_segments (t # ts)))
                     (common_segments (t # ts))"
      by (rule longest_common_prefix_prefix2)
    ultimately show ?thesis by (simp del: common_segments.simps(2) add: prefix_order.trans) 
  qed
qed

lemma common_segments_greatest:
  "ss \<noteq> [] \<Longrightarrow> \<forall>s \<in> set ss. prefix a s \<Longrightarrow> prefix a (common_segments ss)"
proof (induction ss rule: common_segments.induct)
  case 1
  then show ?case by simp
next
  case (2 s)
  then show ?case by simp
next
  case (3 s t ts)
  then have "prefix a s" "prefix a (common_segments (t # ts))" by simp_all
  then show ?case by (simp add: longest_common_prefix_max_prefix)
qed

lemma commonpath_ancestor:
  assumes "commonpath ps = Some c" "p \<in> set ps"
  shows "is_relative_to p c"
proof -
  from assms obtain q qs where ps: "ps = q # qs" by (cases ps) auto
  with assms have an: "\<forall>r \<in> set qs. anchor r = anchor q"
    and c: "c = Path (anchor q) (common_segments (map segments ps))"
    by (auto simp: commonpath_def list_all_iff split: if_splits)
  from assms(2) ps an have "anchor p = anchor q" by auto
  moreover from assms(2) have "prefix (common_segments (map segments ps)) (segments p)"
    by (intro common_segments_prefix) simp
  ultimately show ?thesis by (simp add: is_relative_to_def relative_to_def c)
qed

lemma commonpath_self: "commonpath ps = Some c \<Longrightarrow> is_relative_to c c"
  by (simp add: is_relative_to_def relative_to_def)

lemma commonpath_greatest:
  assumes "commonpath ps = Some c" "\<forall>p \<in> set ps. is_relative_to p a"
  shows "is_relative_to c a"
proof -
  from assms obtain q qs where ps: "ps = q # qs" by (cases ps) (auto simp: commonpath_def)
  with assms have c: "c = Path (anchor q) (common_segments (map segments ps))"
    by (auto simp: commonpath_def split: if_splits)
  from assms(2) ps have "anchor q = anchor a"
    by (auto simp: is_relative_to_def relative_to_def split: if_splits)
  moreover from assms(2) have "\<forall>s \<in> set (map segments ps). prefix (segments a) s"
    by (auto simp: is_relative_to_def relative_to_def split: if_splits)
  then have "prefix (segments a) (common_segments (map segments ps))"
    using ps by (intro common_segments_greatest) simp_all
  ultimately show ?thesis by (simp add: is_relative_to_def relative_to_def c)
qed


lemma resolve_single_path_ok:
  assumes "resolver_caches_ok fs pr" "resolve_single_path fs pr s = Inr (p, pr')"
  shows "p = fs_resolve fs (join_paths (pr_base_path pr) (fs_path fs s)) \<and>
         resolver_caches_ok fs pr' \<and> pr_base_path pr' = pr_base_path pr"
proof (cases "pr_resolved_cache pr s")
  case None
  with assms(2) have p: "p = fs_resolve fs (join_paths (pr_base_path pr) (fs_path fs s))"
    and pr': "pr' = pr\<lparr>pr_resolved_cache := (pr_resolved_cache pr)(s \<mapsto> p)\<rparr>"
    by (auto simp: resolve_single_path_def Let_def split: if_splits)
  from assms(1) p have "resolver_caches_ok fs pr'"
    unfolding pr' resolver_caches_ok_def by simp
  with p pr' show ?thesis by simp
next
  case (Some q)
  with assms(2) have "p = q" "pr' = pr" by (simp_all add: resolve_single_path_def)
  with Some assms(1) show ?thesis by (simp add: resolver_caches_ok_def)
qed

lemma resolve_glob_ok:
  assumes "resolver_caches_ok fs pr" "resolve_glob fs pr s = (ps, pr')"
  shows "ps = map (\<lambda>m. fs_resolve fs (fs_path fs m)) (fs_glob fs s) \<and>
         resolver_caches_ok fs pr' \<and> pr_base_path pr' = pr_base_path pr"
proof (cases "pr_glob_cache pr s")
  case None
  show ?thesis
  proof (cases "fs_glob fs s = []")
    case True
    with None assms(2) have "ps = []" "pr' = pr\<lparr>pr_warnings := pr_warnings pr @ [NoGlobMatches s]\<rparr>"
      by (simp_all add: resolve_glob_def)
    with True assms(1) show ?thesis by (simp add: resolver_caches_ok_def)
  next
    case False
    with None assms(2) have ps: "ps = map (\<lambda>m. fs_resolve fs (fs_path fs m)) (fs_glob fs s)"
      and pr': "pr' = pr\<lparr>pr_glob_cache := (pr_glob_cache pr)(s \<mapsto> ps)\<rparr>"
      by (auto simp: resolve_glob_def Let_def)
    from assms(1) ps have "resolver_caches_ok fs pr'"
      unfolding pr' resolver_caches_ok_def by simp
    with ps pr' show ?thesis by simp
  qed
next
  case (Some qs)
  with assms(2) have "ps = qs" "pr' = pr" by (simp_all add: resolve_glob_def)
  with Some assms(1) show ?thesis by (simp add: resolver_caches_ok_def)
qed

lemma resolve_loop_ok:
  "resolver_caches_ok fs pr \<Longrightarrow> resolve_loop fs pr ss acc = Inr (calc, pr') \<Longrightarrow>
   calc = acc @ concat (map (resolved_of fs (pr_base_path pr)) ss) \<and>
   resolver_caches_ok fs pr' \<and> pr_base_path pr' = pr_base_path pr"
proof (induction ss arbitrary: pr acc)
  case Nil
  then show ?case by simp
next
  case (Cons s ss)
  show ?case
  proof (cases "is_glob s")
    case True
    obtain ps pr1 where g: "resolve_glob fs pr s = (ps, pr1)" by (cases "resolve_glob fs pr s")
    from resolve_glob_ok[OF Cons.prems(1) g]
    have ps: "ps = map (\<lambda>m. fs_resolve fs (fs_path fs m)) (fs_glob fs s)"
      and ok1: "resolver_caches_ok fs pr1" and b1: "pr_base_path pr1 = pr_base_path pr"
      by simp_all
    from Cons.prems(2) True g have "resolve_loop fs pr1 ss (acc @ ps) = Inr (calc, pr')" by simp
    from Cons.IH[OF ok1 this] ps b1 True show ?thesis by (simp add: resolved_of_def)
  next
    case False
    with Cons.prems(2) obtain p pr1 where r: "resolve_single_path fs pr s = Inr (p, pr1)"
      and l: "resolve_loop fs pr1 ss (acc @ [p]) = Inr (calc, pr')"
      by (auto split: sum.splits)
    from resolve_single_path_ok[OF Cons.prems(1) r]
    have p: "p = fs_resolve fs (join_paths (pr_base_path pr) (fs_path fs s))"
      and ok1: "resolver_caches_ok fs pr1" and b1: "pr_base_path pr1 = pr_base_path pr"
      by simp_all
    from Cons.IH[OF ok1 l] p b1 False show ?thesis by (simp add: resolved_of_def)
  qed
qed

lemma resolve_paths_cases:
  assumes "ss \<noteq> []" "resolve_paths fs pr ss = Inr (res, pr')"
  obtains (none) "resolve_loop fs pr ss [] = Inr ([], pr')" "res = []"
  | (some) calc c where "resolve_loop fs pr ss [] = Inr (calc, pr')" "calc \<noteq> []"
      "commonpath calc = Some c" "res = calc @ [c]"
  using assms by (auto simp: resolve_paths_def split: sum.splits if_splits option.splits)

lemmas demo_eval = resolve_paths_def resolve_single_path_def resolve_glob_def is_glob_def
  PathResolver_def demo_fs_def posix_path_def join_paths_def startswith_def demo_dirs_def
  demo_files_def demo_links_def commonpath_def Let_def

lemma demo_resolve_twice:
  "resolve_paths demo_fs (PathResolver demo_fs) [''sub/foo'', ''sub/*''] =
     Inr ([Path ''/'' [''root'', ''sub'', ''foo''],
           Path ''/'' [''root'', ''sub'', ''.gitignore''],
           Path ''/'' [''root'', ''sub'', ''foo''],
           Path ''/'' [''root'', ''sub'', ''deep''],
           Path ''/'' [''root'', ''sub'']],
          (PathResolver demo_fs)
            \<lparr>pr_resolved_cache := [''sub/foo'' \<mapsto> Path ''/'' [''root'', ''sub'', ''foo'']],
             pr_glob_cache :=
               [''sub/*'' \<mapsto> [Path ''/'' [''root'', ''sub'', ''.gitignore''],
                               Path ''/'' [''root'', ''sub'', ''foo''],
                               Path ''/'' [''root'', ''sub'', ''deep'']]]\<rparr>)"
  by (simp add: demo_eval)

text \<open>
  Claim C1, as stated, fails: the literal \<open>sub/foo\<close> and the glob \<open>sub/*\<close> both resolve to
  \<open>/root/sub/foo\<close>, and the result lists that path twice before the common ancestor.
\<close>

theorem resolve_paths_duplicates_counterexample:
  "map_sum id fst (resolve_paths demo_fs (PathResolver demo_fs) [''sub/foo'', ''sub/*'']) =
     Inr [Path ''/'' [''root'', ''sub'', ''foo''],
          Path ''/'' [''root'', ''sub'', ''.gitignore''],
          Path ''/'' [''root'', ''sub'', ''foo''],
          Path ''/'' [''root'', ''sub'', ''deep''],
          Path ''/'' [''root'', ''sub'']] \<and>
   \<not> distinct [Path ''/'' [''root'', ''sub'', ''foo''],
               Path ''/'' [''root'', ''sub'', ''.gitignore''],
               Path ''/'' [''root'', ''sub'', ''foo''],
               Path ''/'' [''root'', ''sub'', ''deep'']]"
  by (simp add: demo_resolve_twice)

text \<open>
  Claim C1, amended. For a non-empty input list and a resolver whose caches agree with the
  file system, the result without its last element is the concatenation, in input order,
  of what each input resolves to: one path for a literal, every match for a glob. Every
  resolution is kept, nothing is removed; the last element is the common path of the
  others.
\<close>

theorem resolve_paths_keeps_every_resolution:
  assumes "resolver_caches_ok fs pr" and "path_strings \<noteq> []"
    and "resolve_paths fs pr path_strings = Inr (res, pr')"
  shows "butlast res = concat (map (resolved_of fs (pr_base_path pr)) path_strings) \<and>
         (res \<noteq> [] \<longrightarrow> commonpath (butlast res) = Some (last res)) \<and>
         resolver_caches_ok fs pr'"
  using assms(2,3)
proof (cases rule: resolve_paths_cases)
  case none
  from resolve_loop_ok[OF assms(1) none(1)] none(2) show ?thesis by simp
next
  case (some calc c)
  from resolve_loop_ok[OF assms(1) some(1)] some(3,4) show ?thesis by simp
qed

theorem resolve_paths_keeps_every_resolution_witness:
  "resolver_caches_ok demo_fs (PathResolver demo_fs) \<and> [''sub/foo'', ''sub/*''] \<noteq> [] \<and>
   map_sum id fst (resolve_paths demo_fs (PathResolver demo_fs) [''sub/foo'', ''sub/*'']) =
     Inr [Path ''/'' [''root'', ''sub'', ''foo''],
          Path ''/'' [''root'', ''sub'', ''.gitignore''],
          Path ''/'' [''root'', ''sub'', ''foo''],
          Path ''/'' [''root'', ''sub'', ''deep''],
          Path ''/'' [''root'', ''sub'']] \<and>
   concat (map (resolved_of demo_fs (Path ''/'' [''root''])) [''sub/foo'', ''sub/*'']) =
     [Path ''/'' [''root'', ''sub'', ''foo''],
      Path ''/'' [''root'', ''sub'', ''.gitignore''],
      Path ''/'' [''root'', ''sub'', ''foo''],
      Path ''/'' [''root'', ''sub'', ''deep'']] \<and>
   commonpath [Path ''/'' [''root'', ''sub'', ''foo''],
      Path ''/'' [''root'', ''sub'', ''.gitignore''],
      Path ''/'' [''root'', ''sub'', ''foo''],
      Path ''/'' [''root'', ''sub'', ''deep'']] = Some (Path ''/'' [''root'', ''sub''])"
proof -
  have h1: "resolver_caches_ok demo_fs (PathResolver demo_fs)"
    by (simp add: resolver_caches_ok_def PathResolver_def)
  have h2: "[''sub/foo'', ''sub/*''] \<noteq> []" by simp
  have b: "pr_base_path (PathResolver demo_fs) = Path ''/'' [''root'']"
    by (simp add: PathResolver_def demo_fs_def)
  let ?calc = "[Path ''/'' [''root'', ''sub'', ''foo''],
      Path ''/'' [''root'', ''sub'', ''.gitignore''],
      Path ''/'' [''root'', ''sub'', ''foo''],
      Path ''/'' [''root'', ''sub'', ''deep'']]"
  let ?res = "[Path ''/'' [''root'', ''sub'', ''foo''],
      Path ''/'' [''root'', ''sub'', ''.gitignore''],
      Path ''/'' [''root'', ''sub'', ''foo''],
      Path ''/'' [''root'', ''sub'', ''deep''],
      Path ''/'' [''root'', ''sub'']]"
  have bl: "butlast ?res = ?calc"
    and la: "last ?res = Path ''/'' [''root'', ''sub'']"
    and ne: "?res \<noteq> []"
    by simp_all
  note t = resolve_paths_keeps_every_resolution[OF h1 h2 demo_resolve_twice, unfolded b]
  from t have c1: "?calc = concat (map (resolved_of demo_fs (Path ''/'' [''root''])) [''sub/foo'', ''sub/*''])"
    unfolding bl by (rule conjunct1)
  from t ne have c2: "commonpath ?calc = Some (Path ''/'' [''root'', ''sub''])"
    unfolding bl la by blast
  from h1 h2 c1[symmetric] c2 show ?thesis by (simp add: demo_resolve_twice)
qed

lemma is_relative_to_antisym:
  "is_relative_to p q \<Longrightarrow> is_relative_to q p \<Longrightarrow> p = q"
  by (cases p; cases q)
     (auto simp: is_relative_to_def relative_to_def split: if_splits
           intro: prefix_order.antisym)

lemma commonpath_of_one_path:
  assumes "commonpath ps = Some c" "ps \<noteq> []" "\<forall>p \<in> set ps. p = q"
  shows "c = q"
proof -
  from assms(2,3) have q: "q \<in> set ps" by (cases ps) auto
  from commonpath_ancestor[OF assms(1) q] have "is_relative_to q c" .
  moreover have "is_relative_to c q"
    by (rule commonpath_greatest[OF assms(1)])
       (use assms(3) in \<open>auto simp: is_relative_to_def relative_to_def\<close>)
  ultimately show ?thesis by (rule is_relative_to_antisym[symmetric])
qed

lemma demo_resolve_file:
  "resolve_paths demo_fs (PathResolver demo_fs) [''foo''] =
     Inr ([Path ''/'' [''root'', ''foo''], Path ''/'' [''root'', ''foo'']],
          (PathResolver demo_fs)
            \<lparr>pr_resolved_cache := [''foo'' \<mapsto> Path ''/'' [''root'', ''foo'']]\<rparr>)"
  by (simp add: demo_eval)

text \<open>
  Claim C8, as stated, fails: the appended element need not be a directory. For the single
  input \<open>foo\<close>, a regular file of the working directory, \<open>os.path.commonpath\<close> of the one
  resolved path is that path, and the result is the file \<open>/root/foo\<close> twice.
\<close>

theorem common_path_is_a_file_counterexample:
  "map_sum id fst (resolve_paths demo_fs (PathResolver demo_fs) [''foo'']) =
     Inr [Path ''/'' [''root'', ''foo''], Path ''/'' [''root'', ''foo'']] \<and>
   fs_is_file demo_fs (Path ''/'' [''root'', ''foo'']) \<and>
   \<not> fs_is_dir demo_fs (Path ''/'' [''root'', ''foo''])"
  by (simp add: demo_resolve_file)
     (simp add: demo_fs_def demo_files_def demo_dirs_def join_paths_def)

text \<open>
  Claim C8, amended. For a non-empty input list whose result is non-empty, the result is the
  resolved paths followed by exactly one more element, their longest common path; that
  element is an ancestor of, or equal to, every element of the result, and it is the
  deepest such path. It is the resolved path itself, whatever kind of file that is, when
  all resolved paths are the same path. For the empty input list the result is the single
  base path of the resolver, which a new resolver takes from the working directory.
\<close>

theorem resolve_paths_ends_with_common_path:
  "(path_strings \<noteq> [] \<and> resolve_paths fs pr path_strings = Inr (res, pr') \<and> res \<noteq> [] \<longrightarrow>
      (\<exists>calc c. resolve_loop fs pr path_strings [] = Inr (calc, pr') \<and> calc \<noteq> [] \<and>
         res = calc @ [c] \<and> commonpath calc = Some c \<and>
         (\<forall>p \<in> set res. is_relative_to p c) \<and>
         (\<forall>a. (\<forall>p \<in> set calc. is_relative_to p a) \<longrightarrow> is_relative_to c a) \<and>
         (\<forall>q. (\<forall>p \<in> set calc. p = q) \<longrightarrow> c = q))) \<and>
   resolve_paths fs pr [] = Inr ([pr_base_path pr], pr) \<and>
   resolve_paths fs (PathResolver fs) [] = Inr ([fs_cwd fs], PathResolver fs)"
proof (intro conjI impI)
  assume h: "path_strings \<noteq> [] \<and> resolve_paths fs pr path_strings = Inr (res, pr') \<and> res \<noteq> []"
  then have ne: "path_strings \<noteq> []" and r: "resolve_paths fs pr path_strings = Inr (res, pr')"
    and res: "res \<noteq> []" by simp_all
  from ne r show "\<exists>calc c. resolve_loop fs pr path_strings [] = Inr (calc, pr') \<and> calc \<noteq> [] \<and>
         res = calc @ [c] \<and> commonpath calc = Some c \<and>
         (\<forall>p \<in> set res. is_relative_to p c) \<and>
         (\<forall>a. (\<forall>p \<in> set calc. is_relative_to p a) \<longrightarrow> is_relative_to c a) \<and>
         (\<forall>q. (\<forall>p \<in> set calc. p = q) \<longrightarrow> c = q)"
  proof (cases rule: resolve_paths_cases)
    case none
    with res show ?thesis by simp
  next
    case (some calc c)
    have "\<forall>p \<in> set res. is_relative_to p c"
      using commonpath_ancestor[OF some(3)] commonpath_self[OF some(3)] some(4) by auto
    moreover have "\<forall>a. (\<forall>p \<in> set calc. is_relative_to p a) \<longrightarrow> is_relative_to c a"
      using commonpath_greatest[OF some(3)] by blast
    moreover have "\<forall>q. (\<forall>p \<in> set calc. p = q) \<longrightarrow> c = q"
      using commonpath_of_one_path[OF some(3,2)] by blast
    ultimately show ?thesis using some by blast
  qed
next
  show "resolve_paths fs pr [] = Inr ([pr_base_path pr], pr)" by (simp add: resolve_paths_def)
next
  show "resolve_paths fs (PathResolver fs) [] = Inr ([fs_cwd fs], PathResolver fs)"
    by (simp add: resolve_paths_def PathResolver_def)
qed

theorem resolve_paths_ends_with_common_path_witness:
  "[''sub/foo'', ''sub/*''] \<noteq> [] \<and>
   map_sum id fst (resolve_paths demo_fs (PathResolver demo_fs) [''sub/foo'', ''sub/*'']) =
     Inr ([Path ''/'' [''root'', ''sub'', ''foo''],
          Path ''/'' [''root'', ''sub'', ''.gitignore''],
          Path ''/'' [''root'', ''sub'', ''foo''],
          Path ''/'' [''root'', ''sub'', ''deep'']] @ [Path ''/'' [''root'', ''sub'']]) \<and>
   list_all (\<lambda>p. is_relative_to p (Path ''/'' [''root'', ''sub'']))
     [Path ''/'' [''root'', ''sub'', ''foo''],
      Path ''/'' [''root'', ''sub'', ''.gitignore''],
      Path ''/'' [''root'', ''sub'', ''foo''],
      Path ''/'' [''root'', ''sub'', ''deep''],
      Path ''/'' [''root'', ''sub'']] \<and>
   list_all (\<lambda>p. is_relative_to p (Path ''/'' [''root'']))
     [Path ''/'' [''root'', ''sub'', ''foo''],
      Path ''/'' [''root'', ''sub'', ''.gitignore''],
      Path ''/'' [''root'', ''sub'', ''foo''],
      Path ''/'' [''root'', ''sub'', ''deep'']] \<and>
   is_relative_to (Path ''/'' [''root'', ''sub'']) (Path ''/'' [''root'']) \<and>
   [''foo''] \<noteq> [] \<and>
   resolve_loop demo_fs (PathResolver demo_fs) [''foo''] [] =
     Inr ([Path ''/'' [''root'', ''foo'']],
          (PathResolver demo_fs)
            \<lparr>pr_resolved_cache := [''foo'' \<mapsto> Path ''/'' [''root'', ''foo'']]\<rparr>) \<and>
   list_all (\<lambda>p. p = Path ''/'' [''root'', ''foo'']) [Path ''/'' [''root'', ''foo'']] \<and>
   commonpath [Path ''/'' [''root'', ''foo'']] = Some (Path ''/'' [''root'', ''foo'']) \<and>
   resolve_paths demo_fs (PathResolver demo_fs) [] = Inr ([Path ''/'' [''root'']], PathResolver demo_fs)"
proof -
  let ?calc = "[Path ''/'' [''root'', ''sub'', ''foo''],
          Path ''/'' [''root'', ''sub'', ''.gitignore''],
          Path ''/'' [''root'', ''sub'', ''foo''],
          Path ''/'' [''root'', ''sub'', ''deep'']]"
  let ?res = "?calc @ [Path ''/'' [''root'', ''sub'']]"
  let ?pr' = "(PathResolver demo_fs)
            \<lparr>pr_resolved_cache := [''sub/foo'' \<mapsto> Path ''/'' [''root'', ''sub'', ''foo'']],
             pr_glob_cache :=
               [''sub/*'' \<mapsto> [Path ''/'' [''root'', ''sub'', ''.gitignore''],
                               Path ''/'' [''root'', ''sub'', ''foo''],
                               Path ''/'' [''root'', ''sub'', ''deep'']]]\<rparr>"
  have r: "resolve_paths demo_fs (PathResolver demo_fs) [''sub/foo'', ''sub/*''] = Inr (?res, ?pr')"
    using demo_resolve_twice by simp
  have h: "[''sub/foo'', ''sub/*''] \<noteq> [] \<and>
      resolve_paths demo_fs (PathResolver demo_fs) [''sub/foo'', ''sub/*''] = Inr (?res, ?pr') \<and>
      ?res \<noteq> []"
    using r by simp
  have anc: "\<forall>p \<in> set ?calc. is_relative_to p (Path ''/'' [''root''])"
    by (simp add: is_relative_to_def relative_to_def)
  note t = resolve_paths_ends_with_common_path[where path_strings = "[''sub/foo'', ''sub/*'']"
      and fs = demo_fs and pr = "PathResolver demo_fs" and res = ?res and pr' = ?pr']
  from t h obtain calc c where cc: "?res = calc @ [c]"
    and all: "\<forall>p \<in> set ?res. is_relative_to p c"
    and gr: "\<forall>a. (\<forall>p \<in> set calc. is_relative_to p a) \<longrightarrow> is_relative_to c a"
    by blast
  from cc have c: "c = Path ''/'' [''root'', ''sub'']" and calc: "calc = ?calc" by simp_all
  from gr anc have top: "is_relative_to (Path ''/'' [''root'', ''sub'']) (Path ''/'' [''root''])"
    unfolding c calc by blast
  from t have e: "resolve_paths demo_fs (PathResolver demo_fs) [] =
      Inr ([fs_cwd demo_fs], PathResolver demo_fs)" by blast
  have cwd: "fs_cwd demo_fs = Path ''/'' [''root'']" by (simp add: demo_fs_def)
  let ?foo = "Path ''/'' [''root'', ''foo'']"
  let ?cachef = "(PathResolver demo_fs)\<lparr>pr_resolved_cache := [''foo'' \<mapsto> ?foo]\<rparr>"
  have hf: "[''foo''] \<noteq> [] \<and>
      resolve_paths demo_fs (PathResolver demo_fs) [''foo''] = Inr ([?foo, ?foo], ?cachef) \<and>
      [?foo, ?foo] \<noteq> []"
    using demo_resolve_file by simp
  note u = resolve_paths_ends_with_common_path[where path_strings = "[''foo'']"
      and fs = demo_fs and pr = "PathResolver demo_fs" and res = "[?foo, ?foo]" and pr' = ?cachef]
  from u hf obtain calcf cf where lf: "resolve_loop demo_fs (PathResolver demo_fs) [''foo''] [] =
        Inr (calcf, ?cachef)"
    and ccf: "[?foo, ?foo] = calcf @ [cf]"
    and cpf: "commonpath calcf = Some cf"
    and one: "\<forall>q. (\<forall>p \<in> set calcf. p = q) \<longrightarrow> cf = q"
    by blast
  from ccf have calcf: "calcf = [?foo]" by (cases calcf) simp_all
  from one[unfolded calcf] have cf: "cf = ?foo" by simp
  note lf' = lf[unfolded calcf]
  note cpf' = cpf[unfolded calcf cf]
  from all[unfolded c] anc top e[unfolded cwd] r lf' cpf' show ?thesis
    by (simp add: list_all_iff)
qed


section \<open>GitIgnore and GitIgnoreMatcher: the caches do not change answers\<close>

text \<open>
  The model keeps one copy of a \<open>GitIgnore\<close> per registration. The lemmas below show that
  the answers do not depend on the contents of a relative-path cache that agrees with
  \<open>relative_to\<close>, so an object shared between registrations answers the same.
\<close>

lemma get_relative_path_cached_ok:
  assumes "rel_cache_ok gi" "get_relative_path_cached gi p root = (r, gi')"
  shows "r = map_option as_posix (relative_to p root) \<and> rel_cache_ok gi' \<and>
         gi_enabled gi' = gi_enabled gi \<and> gi_specs gi' = gi_specs gi"
proof (cases "gi_rel_path_cache gi (p, root)")
  case None
  with assms(2) have r: "r = map_option as_posix (relative_to p root)"
    and gi': "gi' = gi\<lparr>gi_rel_path_cache := (gi_rel_path_cache gi)((p, root) \<mapsto> r)\<rparr>"
    by (auto simp: get_relative_path_cached_def Let_def)
  from assms(1) r have "rel_cache_ok gi'" unfolding gi' rel_cache_ok_def by auto
  with r gi' show ?thesis by simp
next
  case (Some c)
  with assms(2) have "r = c" "gi' = gi" by (simp_all add: get_relative_path_cached_def)
  with Some assms(1) show ?thesis by (auto simp: rel_cache_ok_def)
qed

lemma excluded_specs_ok:
  "rel_cache_ok gi \<Longrightarrow> excluded_specs mf p d specs gi = (r, gi') \<Longrightarrow>
   r = list_ex (spec_matches mf p d) specs \<and> rel_cache_ok gi' \<and>
   gi_enabled gi' = gi_enabled gi \<and> gi_specs gi' = gi_specs gi"
proof (induction specs arbitrary: gi)
  case Nil
  then show ?case by simp
next
  case (Cons s specs)
  obtain root spec where s: "s = (root, spec)" by (cases s)
  obtain rel g1 where g: "get_relative_path_cached gi p root = (rel, g1)"
    by (cases "get_relative_path_cached gi p root")
  from get_relative_path_cached_ok[OF Cons.prems(1) g]
  have rel: "rel = map_option as_posix (relative_to p root)" and ok1: "rel_cache_ok g1"
    and same1: "gi_enabled g1 = gi_enabled gi" "gi_specs g1 = gi_specs gi"
    by simp_all
  show ?case
  proof (cases "spec_matches mf p d s")
    case True
    with Cons.prems(2) s g rel have "r = True" "gi' = g1"
      by (auto simp: spec_matches_def split: option.splits if_splits)
    with True ok1 same1 show ?thesis by simp
  next
    case False
    with Cons.prems(2) s g rel have "excluded_specs mf p d specs g1 = (r, gi')"
      by (auto simp: spec_matches_def split: option.splits if_splits)
    from Cons.IH[OF ok1 this] False same1 show ?thesis by simp
  qed
qed

lemma gitignore_excluded_ok:
  assumes "rel_cache_ok gi" "gitignore_excluded fs mf gi item = (r, gi')"
  shows "r = gitignore_reports fs mf gi item \<and> rel_cache_ok gi' \<and>
         gi_enabled gi' = gi_enabled gi \<and> gi_specs gi' = gi_specs gi"
proof (cases "gi_enabled gi")
  case True
  with assms(2) have "excluded_specs mf (fs_resolve fs item) (fs_is_dir fs (fs_resolve fs item))
      (gi_specs gi) gi = (r, gi')"
    by (simp add: gitignore_excluded_def Let_def)
  from excluded_specs_ok[OF assms(1) this] True show ?thesis
    by (simp add: gitignore_reports_def)
next
  case False
  with assms show ?thesis by (simp add: gitignore_excluded_def gitignore_reports_def)
qed

lemma uncached_excluded_rules:
  "rules_of a = rules_of b \<Longrightarrow> uncached_excluded fs mf a q = uncached_excluded fs mf b q"
proof (induction a arbitrary: b)
  case Nil
  then show ?case by (simp add: rules_of_def uncached_excluded_def)
next
  case (Cons x a)
  then obtain y b' where b: "b = y # b'" by (cases b) (auto simp: rules_of_def)
  with Cons.prems have h: "fst x = fst y" "gi_enabled (snd x) = gi_enabled (snd y)"
    "gi_specs (snd x) = gi_specs (snd y)" and t: "rules_of a = rules_of b'"
    by (simp_all add: rules_of_def)
  from Cons.IH[OF t] h show ?case
    by (simp add: b uncached_excluded_def gitignore_reports_def)
qed

lemma excluded_gitignores_ok:
  "list_all (\<lambda>s. rel_cache_ok (snd s)) gis \<Longrightarrow>
   excluded_gitignores fs mf item gis = (r, gis') \<Longrightarrow>
   r = uncached_excluded fs mf gis item \<and> list_all (\<lambda>s. rel_cache_ok (snd s)) gis' \<and>
   rules_of gis' = rules_of gis"
proof (induction gis arbitrary: r gis')
  case Nil
  then show ?case by (simp add: uncached_excluded_def)
next
  case (Cons s gis)
  obtain root gi where s: "s = (root, gi)" by (cases s)
  from Cons.prems(1) s have ok: "rel_cache_ok gi" and oks: "list_all (\<lambda>s. rel_cache_ok (snd s)) gis"
    by simp_all
  obtain r0 rest where rec: "excluded_gitignores fs mf item gis = (r0, rest)"
    by (cases "excluded_gitignores fs mf item gis")
  from Cons.IH[OF oks rec] have ih: "r0 = uncached_excluded fs mf gis item"
    "list_all (\<lambda>s. rel_cache_ok (snd s)) rest" "rules_of rest = rules_of gis" by simp_all
  show ?case
  proof (cases "is_path_in_scope item root")
    case False
    with Cons.prems(2) s rec have "r = r0" "gis' = (root, gi) # rest" by simp_all
    with False ih ok s show ?thesis
      by (simp add: uncached_excluded_def is_path_in_scope_def is_relative_to_def rules_of_def
          split: option.splits)
  next
    case True
    then have rel: "is_relative_to item root"
      by (simp add: is_path_in_scope_def is_relative_to_def split: option.splits)
    obtain b g1 where e: "gitignore_excluded fs mf gi item = (b, g1)"
      by (cases "gitignore_excluded fs mf gi item")
    from gitignore_excluded_ok[OF ok e] have b: "b = gitignore_reports fs mf gi item"
      and ok1: "rel_cache_ok g1" and same: "gi_enabled g1 = gi_enabled gi" "gi_specs g1 = gi_specs gi"
      by simp_all
    show ?thesis
    proof (cases b)
      case True
      with Cons.prems(2) s \<open>is_path_in_scope item root\<close> e
      have "r = True" "gis' = (root, g1) # gis" by simp_all
      with True b rel ok1 oks same s show ?thesis
        by (simp add: uncached_excluded_def rules_of_def)
    next
      case False
      with Cons.prems(2) s \<open>is_path_in_scope item root\<close> e rec
      have "r = r0" "gis' = (root, g1) # rest" by simp_all
      with False b ih ok1 same s show ?thesis
        by (simp add: uncached_excluded_def rules_of_def)
    qed
  qed
qed

lemma matcher_ok_rules:
  assumes "rules_of gis' = rules_of (gm_gitignores gm)"
    and "list_all (\<lambda>s. rel_cache_ok (snd s)) gis'"
    and "\<forall>k v. map_of c k = Some v \<longrightarrow> v = uncached_excluded fs mf (gm_gitignores gm) k"
  shows "matcher_ok fs mf (gm\<lparr>gm_gitignores := gis', gm_exclusion_cache := c\<rparr>)"
  using assms uncached_excluded_rules[OF assms(1)] by (simp add: matcher_ok_def)

lemma matcher_excluded_ok:
  assumes "matcher_ok fs mf gm" "matcher_excluded fs mf gm item = (r, gm')"
  shows "r = uncached_excluded fs mf (gm_gitignores gm) item \<and> matcher_ok fs mf gm' \<and>
         rules_of (gm_gitignores gm') = rules_of (gm_gitignores gm)"
proof (cases "map_of (gm_exclusion_cache gm) item")
  case (Some v)
  with assms(2) have "r = v" "gm' = gm" by (simp_all add: matcher_excluded_def)
  with Some assms(1) show ?thesis by (simp add: matcher_ok_def)
next
  case None
  obtain r0 gis' where e: "excluded_gitignores fs mf item (gm_gitignores gm) = (r0, gis')"
    by (cases "excluded_gitignores fs mf item (gm_gitignores gm)")
  from assms(1) have oks: "list_all (\<lambda>s. rel_cache_ok (snd s)) (gm_gitignores gm)"
    and cache: "\<forall>k v. map_of (gm_exclusion_cache gm) k = Some v \<longrightarrow>
                  v = uncached_excluded fs mf (gm_gitignores gm) k"
    by (simp_all add: matcher_ok_def)
  from excluded_gitignores_ok[OF oks e]
  have r0: "r0 = uncached_excluded fs mf (gm_gitignores gm) item"
    and oks': "list_all (\<lambda>s. rel_cache_ok (snd s)) gis'"
    and rules: "rules_of gis' = rules_of (gm_gitignores gm)"
    by simp_all
  define c where "c = (if length (gm_exclusion_cache gm) < gm_max_cache_size gm
                       then AList.update item r0 (gm_exclusion_cache gm)
                       else AList.update item r0 [])"
  from None e assms(2) have r: "r = r0"
    and gm': "gm' = gm\<lparr>gm_gitignores := gis', gm_exclusion_cache := c\<rparr>"
    by (simp_all add: matcher_excluded_def c_def)
  have "\<forall>k v. map_of c k = Some v \<longrightarrow> v = uncached_excluded fs mf (gm_gitignores gm) k"
    using cache r0 by (auto simp: c_def update_conv' split: if_splits)
  from matcher_ok_rules[OF rules oks' this] r r0 rules show ?thesis by (simp add: gm')
qed

lemma add_gitignore_ok:
  assumes "matcher_ok fs mf gm" "rel_cache_ok gi"
  shows "matcher_ok fs mf (add_gitignore gm gi root)"
  using assms by (simp add: matcher_ok_def add_gitignore_def)

lemma run_calls_uncached_rules:
  "rules_of a = rules_of b \<Longrightarrow> run_calls_uncached fs mf a cs = run_calls_uncached fs mf b cs"
proof (induction cs arbitrary: a b)
  case Nil
  then show ?case by simp
next
  case (Cons c cs)
  show ?case
  proof (cases c)
    case (Add gi root)
    from Cons.prems have "rules_of (a @ [(root, gi)]) = rules_of (b @ [(root, gi)])"
      by (simp add: rules_of_def)
    from Cons.IH[OF this] Add show ?thesis by simp
  next
    case (Query p)
    with Cons.IH[OF Cons.prems] uncached_excluded_rules[OF Cons.prems] show ?thesis by simp
  qed
qed

lemma run_calls_ok:
  "matcher_ok fs mf gm \<Longrightarrow> list_all well_formed_call cs \<Longrightarrow>
   fst (run_calls fs mf gm cs) = run_calls_uncached fs mf (gm_gitignores gm) cs \<and>
   matcher_ok fs mf (snd (run_calls fs mf gm cs))"
proof (induction cs arbitrary: gm)
  case Nil
  then show ?case by simp
next
  case (Cons c cs)
  from Cons.prems(2) have wf: "well_formed_call c" and wfs: "list_all well_formed_call cs"
    by simp_all
  show ?case
  proof (cases c)
    case (Add gi root)
    with wf have "rel_cache_ok gi" by simp
    from Cons.IH[OF add_gitignore_ok[OF Cons.prems(1) this] wfs] Add show ?thesis
      by (simp add: add_gitignore_def)
  next
    case (Query p)
    obtain r gm' where e: "matcher_excluded fs mf gm p = (r, gm')"
      by (cases "matcher_excluded fs mf gm p")
    from matcher_excluded_ok[OF Cons.prems(1) e]
    have r: "r = uncached_excluded fs mf (gm_gitignores gm) p" and ok': "matcher_ok fs mf gm'"
      and rules: "rules_of (gm_gitignores gm') = rules_of (gm_gitignores gm)"
      by simp_all
    from Cons.IH[OF ok' wfs] run_calls_uncached_rules[OF rules] Query e r show ?thesis
      by (cases "run_calls fs mf gm' cs") simp
  qed
qed

lemmas gitignore_eval = GitIgnore_def load_spec_from_gitignore_def parse_gitignore_file_def
  parent_def strip_def whitespace_def lstrip_def startswith_def Let_def
  demo_fs_def demo_cfg_def demo_links_def demo_dirs_def demo_files_def join_paths_def

lemma demo_gi_sub:
  "GitIgnore demo_fs demo_cfg (Path ''/'' [''root'', ''sub'', ''.gitignore'']) =
     \<lparr>gi_enabled = True, gi_gitignore_depth = Some 5,
      gi_specs = [(Path ''/'' [''root'', ''sub''], [''foo''])],
      gi_rel_path_cache = Map.empty, gi_root_path = Some (Path ''/'' [''root'', ''sub''])\<rparr>"
  by (simp add: gitignore_eval)

lemma demo_gi_root:
  "GitIgnore demo_fs demo_cfg (Path ''/'' [''root'', ''.gitignore'']) =
     \<lparr>gi_enabled = True, gi_gitignore_depth = Some 5,
      gi_specs = [(Path ''/'' [''root''], [''*.log'', ''!keep.log''])],
      gi_rel_path_cache = Map.empty, gi_root_path = Some (Path ''/'' [''root''])\<rparr>"
  by (simp add: gitignore_eval)

lemma demo_resolve:
  "fs_resolve demo_fs (Path ''/'' [''root'', ''sub'', ''foo'']) = Path ''/'' [''root'', ''sub'', ''foo'']"
  "fs_resolve demo_fs (Path ''/'' [''root'', ''foo'']) = Path ''/'' [''root'', ''foo'']"
  "fs_resolve demo_fs (Path ''/'' [''root'', ''link'']) = Path ''/'' [''root'', ''sub'', ''foo'']"
  "fs_is_dir demo_fs (Path ''/'' [''root'', ''sub'', ''foo'']) = False"
  "fs_is_dir demo_fs (Path ''/'' [''root'', ''foo'']) = False"
  by (simp_all add: demo_fs_def demo_links_def demo_dirs_def join_paths_def)

lemmas uncached_eval = uncached_excluded_def gitignore_reports_def spec_matches_def
  is_relative_to_def relative_to_def as_posix_def literal_match_def demo_resolve

text \<open>
  Claim C3. For any cache size limit, any file system and matcher, and any sequence of
  \<open>add_gitignore\<close> and \<open>excluded\<close> calls on a new \<open>GitIgnoreMatcher\<close> (each added
  \<open>GitIgnore\<close> having a relative-path cache that agrees with \<open>relative_to\<close>), every answer
  is the answer of the cache-free evaluation over the scopes registered at that moment;
  so is the answer to one more call; and asking again for the same path gives the same
  answer.
\<close>

theorem matcher_cache_transparent:
  assumes "list_all well_formed_call cs"
  shows "fst (run_calls fs mf (GitIgnoreMatcher\<lparr>gm_max_cache_size := n\<rparr>) cs) =
           run_calls_uncached fs mf [] cs \<and>
         fst (matcher_excluded fs mf
               (snd (run_calls fs mf (GitIgnoreMatcher\<lparr>gm_max_cache_size := n\<rparr>) cs)) p) =
           uncached_excluded fs mf
             (gm_gitignores (snd (run_calls fs mf (GitIgnoreMatcher\<lparr>gm_max_cache_size := n\<rparr>) cs))) p \<and>
         fst (matcher_excluded fs mf
               (snd (matcher_excluded fs mf
                 (snd (run_calls fs mf (GitIgnoreMatcher\<lparr>gm_max_cache_size := n\<rparr>) cs)) p)) p) =
           fst (matcher_excluded fs mf
                 (snd (run_calls fs mf (GitIgnoreMatcher\<lparr>gm_max_cache_size := n\<rparr>) cs)) p)"
proof -
  let ?init = "GitIgnoreMatcher\<lparr>gm_max_cache_size := n\<rparr>"
  let ?gm = "snd (run_calls fs mf ?init cs)"
  have ok0: "matcher_ok fs mf ?init" by (simp add: matcher_ok_def GitIgnoreMatcher_def)
  have g0: "gm_gitignores ?init = []" by (simp add: GitIgnoreMatcher_def)
  from run_calls_ok[OF ok0 assms] g0
  have a: "fst (run_calls fs mf ?init cs) = run_calls_uncached fs mf [] cs"
    and ok: "matcher_ok fs mf ?gm" by simp_all
  obtain r gm' where e: "matcher_excluded fs mf ?gm p = (r, gm')"
    by (cases "matcher_excluded fs mf ?gm p")
  from matcher_excluded_ok[OF ok e]
  have r: "r = uncached_excluded fs mf (gm_gitignores ?gm) p" and ok': "matcher_ok fs mf gm'"
    and rules: "rules_of (gm_gitignores gm') = rules_of (gm_gitignores ?gm)"
    by simp_all
  obtain r2 gm2 where e2: "matcher_excluded fs mf gm' p = (r2, gm2)"
    by (cases "matcher_excluded fs mf gm' p")
  from matcher_excluded_ok[OF ok' e2] uncached_excluded_rules[OF rules] r
  have "r2 = r" by simp
  with a e e2 r show ?thesis by simp
qed

theorem matcher_cache_transparent_witness:
  "list_all well_formed_call demo_calls \<and>
   fst (run_calls demo_fs literal_match (GitIgnoreMatcher\<lparr>gm_max_cache_size := 1\<rparr>) demo_calls) =
     [True, True, False, True, True] \<and>
   run_calls_uncached demo_fs literal_match [] demo_calls = [True, True, False, True, True]"
proof -
  have wf: "list_all well_formed_call demo_calls"
    by (simp add: demo_calls_def demo_gi_sub demo_gi_root rel_cache_ok_def)
  have u: "run_calls_uncached demo_fs literal_match [] demo_calls = [True, True, False, True, True]"
    by (simp add: demo_calls_def demo_gi_sub demo_gi_root uncached_eval)
  from matcher_cache_transparent[OF wf, of demo_fs literal_match 1] wf u show ?thesis by simp
qed


section \<open>Scopes\<close>

lemma gitignore_excluded_reports:
  "rel_cache_ok gi \<Longrightarrow> fst (gitignore_excluded fs mf gi item) = gitignore_reports fs mf gi item"
  using gitignore_excluded_ok[of gi fs mf item] by (cases "gitignore_excluded fs mf gi item") simp

lemma matcher_excluded_uncached:
  "matcher_ok fs mf gm \<Longrightarrow>
   fst (matcher_excluded fs mf gm item) = uncached_excluded fs mf (gm_gitignores gm) item"
  using matcher_excluded_ok[of fs mf gm item] by (cases "matcher_excluded fs mf gm item") simp

lemma spec_matches_in_scope: "spec_matches mf p d s \<Longrightarrow> is_relative_to p (fst s)"
  by (simp add: spec_matches_def is_relative_to_def split: option.splits)

text \<open>
  Claim C2, as stated, fails for \<open>GitIgnore.excluded\<close>: the method resolves the path first,
  so the symbolic link \<open>/root/link\<close>, which is not below \<open>/root/sub\<close> but points to
  \<open>/root/sub/foo\<close>, is reported excluded by the scope loaded from \<open>/root/sub/.gitignore\<close>.
\<close>

theorem symlink_into_scope_counterexample:
  "gi_specs (GitIgnore demo_fs demo_cfg (Path ''/'' [''root'', ''sub'', ''.gitignore''])) =
     [(Path ''/'' [''root'', ''sub''], [''foo''])] \<and>
   \<not> is_relative_to (Path ''/'' [''root'', ''link'']) (Path ''/'' [''root'', ''sub'']) \<and>
   fst (gitignore_excluded demo_fs literal_match
          (GitIgnore demo_fs demo_cfg (Path ''/'' [''root'', ''sub'', ''.gitignore'']))
          (Path ''/'' [''root'', ''link'']))"
  by (simp add: demo_gi_sub gitignore_excluded_def get_relative_path_cached_def
      is_relative_to_def relative_to_def as_posix_def literal_match_def demo_resolve Let_def)

text \<open>
  Claim C2, amended. \<open>GitIgnore.excluded\<close> reports a path exactly when the object is
  enabled and some scope whose root is the resolved path or one of its ancestors matches
  the resolved path. \<open>GitIgnoreMatcher.excluded\<close> reports a path exactly when some
  registered scope whose root is the path as given, or one of its ancestors, has its
  \<open>GitIgnore\<close> report the path. Where the paths involved are not symbolic links, the
  scope loaded from \<open>/root/sub/.gitignore\<close> with the pattern \<open>foo\<close> excludes
  \<open>/root/sub/foo\<close> and does not exclude \<open>/root/foo\<close>, provided the pattern language
  matches \<open>foo\<close> against \<open>foo\<close>.
\<close>

theorem gitignore_scope_of_resolved_path:
  assumes "rel_cache_ok gi" and "matcher_ok fs mf gm"
  shows
    "(fst (gitignore_excluded fs mf gi item) \<longleftrightarrow>
        gi_enabled gi \<and>
        (\<exists>s \<in> set (gi_specs gi).
           is_relative_to (fs_resolve fs item) (fst s) \<and>
           spec_matches mf (fs_resolve fs item) (fs_is_dir fs (fs_resolve fs item)) s)) \<and>
     (fst (matcher_excluded fs mf gm item) \<longleftrightarrow>
        (\<exists>s \<in> set (gm_gitignores gm).
           is_relative_to item (fst s) \<and> fst (gitignore_excluded fs mf (snd s) item))) \<and>
     (cfg_gitignore cfg \<and> mf [''foo''] ''foo'' \<and>
      fs_read_lines fs (Path ''/'' [''root'', ''sub'', ''.gitignore'']) = Some [''foo''] \<and>
      fs_resolve fs (Path ''/'' [''root'', ''sub'', ''.gitignore'']) =
        Path ''/'' [''root'', ''sub'', ''.gitignore''] \<and>
      fs_resolve fs (Path ''/'' [''root'', ''sub'', ''foo'']) = Path ''/'' [''root'', ''sub'', ''foo''] \<and>
      fs_resolve fs (Path ''/'' [''root'', ''foo'']) = Path ''/'' [''root'', ''foo''] \<longrightarrow>
        fst (gitignore_excluded fs mf
               (GitIgnore fs cfg (Path ''/'' [''root'', ''sub'', ''.gitignore'']))
               (Path ''/'' [''root'', ''sub'', ''foo''])) \<and>
        \<not> fst (gitignore_excluded fs mf
               (GitIgnore fs cfg (Path ''/'' [''root'', ''sub'', ''.gitignore'']))
               (Path ''/'' [''root'', ''foo''])) \<and>
        fst (matcher_excluded fs mf
               (add_gitignore GitIgnoreMatcher
                  (GitIgnore fs cfg (Path ''/'' [''root'', ''sub'', ''.gitignore'']))
                  (Path ''/'' [''root'', ''sub'']))
               (Path ''/'' [''root'', ''sub'', ''foo''])) \<and>
        \<not> fst (matcher_excluded fs mf
               (add_gitignore GitIgnoreMatcher
                  (GitIgnore fs cfg (Path ''/'' [''root'', ''sub'', ''.gitignore'']))
                  (Path ''/'' [''root'', ''sub'']))
               (Path ''/'' [''root'', ''foo''])))"
proof (intro conjI impI)
  show "fst (gitignore_excluded fs mf gi item) \<longleftrightarrow>
        gi_enabled gi \<and>
        (\<exists>s \<in> set (gi_specs gi).
           is_relative_to (fs_resolve fs item) (fst s) \<and>
           spec_matches mf (fs_resolve fs item) (fs_is_dir fs (fs_resolve fs item)) s)"
    unfolding gitignore_excluded_reports[OF assms(1)] gitignore_reports_def list_ex_iff
    using spec_matches_in_scope by blast
next
  from assms(2) have oks: "\<forall>s \<in> set (gm_gitignores gm). rel_cache_ok (snd s)"
    by (simp add: matcher_ok_def list_all_iff)
  show "fst (matcher_excluded fs mf gm item) \<longleftrightarrow>
        (\<exists>s \<in> set (gm_gitignores gm).
           is_relative_to item (fst s) \<and> fst (gitignore_excluded fs mf (snd s) item))"
    unfolding matcher_excluded_uncached[OF assms(2)] uncached_excluded_def list_ex_iff
    using oks gitignore_excluded_reports by blast
next
  let ?g = "Path ''/'' [''root'', ''sub'', ''.gitignore'']"
  let ?gi = "GitIgnore fs cfg ?g"
  let ?gm = "add_gitignore GitIgnoreMatcher ?gi (Path ''/'' [''root'', ''sub''])"
  assume h: "cfg_gitignore cfg \<and> mf [''foo''] ''foo'' \<and>
      fs_read_lines fs ?g = Some [''foo''] \<and> fs_resolve fs ?g = ?g \<and>
      fs_resolve fs (Path ''/'' [''root'', ''sub'', ''foo'']) = Path ''/'' [''root'', ''sub'', ''foo''] \<and>
      fs_resolve fs (Path ''/'' [''root'', ''foo'']) = Path ''/'' [''root'', ''foo'']"
  then have gi: "gi_enabled ?gi" "gi_specs ?gi = [(Path ''/'' [''root'', ''sub''], [''foo''])]"
    "gi_rel_path_cache ?gi = Map.empty"
    by (simp_all add: GitIgnore_def load_spec_from_gitignore_def parse_gitignore_file_def
        parent_def strip_def whitespace_def lstrip_def startswith_def Let_def)
  then have ok: "rel_cache_ok ?gi" by (simp add: rel_cache_ok_def)
  have mok: "matcher_ok fs mf ?gm"
    by (rule add_gitignore_ok[OF _ ok]) (simp add: matcher_ok_def GitIgnoreMatcher_def)
  have gis: "gm_gitignores ?gm = [(Path ''/'' [''root'', ''sub''], ?gi)]"
    by (simp add: add_gitignore_def GitIgnoreMatcher_def)
  from h gi have r1: "gitignore_reports fs mf ?gi (Path ''/'' [''root'', ''sub'', ''foo''])"
    by (simp add: gitignore_reports_def spec_matches_def relative_to_def as_posix_def)
  from h gi have r2: "\<not> gitignore_reports fs mf ?gi (Path ''/'' [''root'', ''foo''])"
    by (simp add: gitignore_reports_def spec_matches_def relative_to_def)
  show "fst (gitignore_excluded fs mf ?gi (Path ''/'' [''root'', ''sub'', ''foo'']))"
    using r1 by (simp add: gitignore_excluded_reports[OF ok])
  show "\<not> fst (gitignore_excluded fs mf ?gi (Path ''/'' [''root'', ''foo'']))"
    using r2 by (simp add: gitignore_excluded_reports[OF ok])
  show "fst (matcher_excluded fs mf ?gm (Path ''/'' [''root'', ''sub'', ''foo'']))"
    using r1 by (simp add: matcher_excluded_uncached[OF mok] gis uncached_excluded_def
        is_relative_to_def relative_to_def)
  show "\<not> fst (matcher_excluded fs mf ?gm (Path ''/'' [''root'', ''foo'']))"
    by (simp add: matcher_excluded_uncached[OF mok] gis uncached_excluded_def
        is_relative_to_def relative_to_def)
qed

theorem gitignore_scope_of_resolved_path_witness:
  "rel_cache_ok (GitIgnore demo_fs demo_cfg (Path ''/'' [''root'', ''sub'', ''.gitignore''])) \<and>
   matcher_ok demo_fs literal_match
     (add_gitignore GitIgnoreMatcher
        (GitIgnore demo_fs demo_cfg (Path ''/'' [''root'', ''sub'', ''.gitignore'']))
        (Path ''/'' [''root'', ''sub''])) \<and>
   cfg_gitignore demo_cfg \<and> literal_match [''foo''] ''foo'' \<and>
   fs_read_lines demo_fs (Path ''/'' [''root'', ''sub'', ''.gitignore'']) = Some [''foo''] \<and>
   fst (gitignore_excluded demo_fs literal_match
          (GitIgnore demo_fs demo_cfg (Path ''/'' [''root'', ''sub'', ''.gitignore'']))
          (Path ''/'' [''root'', ''sub'', ''foo''])) \<and>
   \<not> fst (gitignore_excluded demo_fs literal_match
          (GitIgnore demo_fs demo_cfg (Path ''/'' [''root'', ''sub'', ''.gitignore'']))
          (Path ''/'' [''root'', ''foo''])) \<and>
   fst (matcher_excluded demo_fs literal_match
          (add_gitignore GitIgnoreMatcher
             (GitIgnore demo_fs demo_cfg (Path ''/'' [''root'', ''sub'', ''.gitignore'']))
             (Path ''/'' [''root'', ''sub'']))
          (Path ''/'' [''root'', ''sub'', ''foo''])) \<and>
   \<not> fst (matcher_excluded demo_fs literal_match
          (add_gitignore GitIgnoreMatcher
             (GitIgnore demo_fs demo_cfg (Path ''/'' [''root'', ''sub'', ''.gitignore'']))
             (Path ''/'' [''root'', ''sub'']))
          (Path ''/'' [''root'', ''link'']))"
proof -
  let ?gi = "GitIgnore demo_fs demo_cfg (Path ''/'' [''root'', ''sub'', ''.gitignore''])"
  let ?gm = "add_gitignore GitIgnoreMatcher ?gi (Path ''/'' [''root'', ''sub''])"
  have ok: "rel_cache_ok ?gi" by (simp add: demo_gi_sub rel_cache_ok_def)
  have mok: "matcher_ok demo_fs literal_match ?gm"
    by (rule add_gitignore_ok[OF _ ok]) (simp add: matcher_ok_def GitIgnoreMatcher_def)
  have h: "cfg_gitignore demo_cfg \<and> literal_match [''foo''] ''foo'' \<and>
      fs_read_lines demo_fs (Path ''/'' [''root'', ''sub'', ''.gitignore'']) = Some [''foo''] \<and>
      fs_resolve demo_fs (Path ''/'' [''root'', ''sub'', ''.gitignore'']) =
        Path ''/'' [''root'', ''sub'', ''.gitignore''] \<and>
      fs_resolve demo_fs (Path ''/'' [''root'', ''sub'', ''foo'']) = Path ''/'' [''root'', ''sub'', ''foo''] \<and>
      fs_resolve demo_fs (Path ''/'' [''root'', ''foo'']) = Path ''/'' [''root'', ''foo'']"
    by (simp add: demo_cfg_def literal_match_def demo_fs_def demo_links_def join_paths_def)
  note t = gitignore_scope_of_resolved_path[OF ok mok, where cfg = demo_cfg
      and item = "Path ''/'' [''root'', ''link'']"]
  have gis: "gm_gitignores ?gm = [(Path ''/'' [''root'', ''sub''], ?gi)]"
    by (simp add: add_gitignore_def GitIgnoreMatcher_def)
  have nrel: "\<not> is_relative_to (Path ''/'' [''root'', ''link'']) (Path ''/'' [''root'', ''sub''])"
    by (simp add: is_relative_to_def relative_to_def)
  from t have "fst (matcher_excluded demo_fs literal_match ?gm (Path ''/'' [''root'', ''link''])) \<longleftrightarrow>
        (\<exists>s \<in> set (gm_gitignores ?gm).
           is_relative_to (Path ''/'' [''root'', ''link'']) (fst s) \<and>
           fst (gitignore_excluded demo_fs literal_match (snd s) (Path ''/'' [''root'', ''link''])))"
    by blast
  with nrel have c2: "\<not> fst (matcher_excluded demo_fs literal_match ?gm (Path ''/'' [''root'', ''link'']))"
    unfolding gis by simp
  from t h have c3: "fst (gitignore_excluded demo_fs literal_match ?gi (Path ''/'' [''root'', ''sub'', ''foo''])) \<and>
        \<not> fst (gitignore_excluded demo_fs literal_match ?gi (Path ''/'' [''root'', ''foo''])) \<and>
        fst (matcher_excluded demo_fs literal_match ?gm (Path ''/'' [''root'', ''sub'', ''foo'']))"
    by blast
  from ok mok h c2 c3 show ?thesis by blast
qed


section \<open>The walk that discovers nested gitignore files\<close>

lemma walk_loop_step:
  assumes "walk_loop fs gi root (Suc n) (d # stack) visited = Some ds"
  obtains (seen) "d \<in> visited" "walk_loop fs gi root n stack visited = Some ds"
  | (leaf) ds' where "d \<notin> visited" "ds = d # ds'"
      "\<not> within_depth gi root d \<or> fs_iterdir fs d = None"
      "walk_loop fs gi root n stack (insert d visited) = Some ds'"
  | (expand) ds' names where "d \<notin> visited" "ds = d # ds'" "within_depth gi root d"
      "fs_iterdir fs d = Some names"
      "walk_loop fs gi root n (rev (subdirs fs d names) @ stack) (insert d visited) = Some ds'"
  using assms by (auto split: if_splits option.splits)

lemma walk_loop_distinct:
  "walk_loop fs gi root n stack visited = Some ds \<Longrightarrow> distinct ds \<and> set ds \<inter> visited = {}"
proof (induction n arbitrary: stack visited ds)
  case 0
  then show ?case by (cases stack) simp_all
next
  case (Suc n)
  show ?case
  proof (cases stack)
    case Nil
    with Suc.prems show ?thesis by simp
  next
    case (Cons d rest)
    from Suc.prems[unfolded Cons] show ?thesis
    proof (cases rule: walk_loop_step)
      case seen
      from Suc.IH[OF seen(2)] show ?thesis .
    next
      case (leaf ds')
      from Suc.IH[OF leaf(4)] leaf(1,2) show ?thesis by auto
    next
      case (expand ds' names)
      from Suc.IH[OF expand(5)] expand(1,2) show ?thesis by auto
    qed
  qed
qed

lemma walk_loop_origin:
  "walk_loop fs gi root n stack visited = Some ds \<Longrightarrow>
   \<forall>x \<in> set ds. x \<in> set stack \<or> (\<exists>p \<in> set ds. child_of fs gi root p x)"
proof (induction n arbitrary: stack visited ds)
  case 0
  then show ?case by (cases stack) simp_all
next
  case (Suc n)
  show ?case
  proof (cases stack)
    case Nil
    with Suc.prems show ?thesis by simp
  next
    case (Cons d rest)
    from Suc.prems[unfolded Cons] show ?thesis
    proof (cases rule: walk_loop_step)
      case seen
      from Suc.IH[OF seen(2)] Cons show ?thesis by auto
    next
      case (leaf ds')
      from Suc.IH[OF leaf(4)] leaf(2) Cons show ?thesis by auto
    next
      case (expand ds' names)
      have "x \<in> set stack \<or> (\<exists>p \<in> set ds. child_of fs gi root p x)" if "x \<in> set ds" for x
      proof (cases "x = d")
        case True
        with Cons show ?thesis by simp
      next
        case False
        with that expand(2) have "x \<in> set ds'" by simp
        with Suc.IH[OF expand(5)]
        have "x \<in> set (rev (subdirs fs d names) @ rest) \<or> (\<exists>p \<in> set ds'. child_of fs gi root p x)"
          by blast
        then show ?thesis
        proof (elim disjE)
          assume "x \<in> set (rev (subdirs fs d names) @ rest)"
          then consider "x \<in> set (subdirs fs d names)" | "x \<in> set rest" by auto
          then show ?thesis
          proof cases
            case 1
            with expand(3,4) have "child_of fs gi root d x" by (auto simp: child_of_def)
            with expand(2) show ?thesis by auto
          next
            case 2
            with Cons show ?thesis by simp
          qed
        next
          assume "\<exists>p \<in> set ds'. child_of fs gi root p x"
          with expand(2) show ?thesis by auto
        qed
      qed
      then show ?thesis by blast
    qed
  qed
qed

lemma relative_to_joinpath:
  "relative_to p root = Some parts \<Longrightarrow> relative_to (joinpath p nm) root = Some (parts @ [nm])"
  by (auto simp: relative_to_def joinpath_def prefix_length_le split: if_splits)

lemma child_of_cases:
  assumes "child_of fs gi root p d"
  obtains nm names where "fs_iterdir fs p = Some names" "nm \<in> set names" "d = joinpath p nm"
    "fs_is_dir fs d" "\<not> fs_is_symlink fs d" "within_depth gi root p"
  using assms by (auto simp: child_of_def subdirs_def)

lemma walk_loop_below_root:
  "walk_loop fs gi root n stack visited = Some ds \<Longrightarrow>
   \<forall>s \<in> set stack. is_relative_to s root \<Longrightarrow> \<forall>x \<in> set ds. is_relative_to x root"
proof (induction n arbitrary: stack visited ds)
  case 0
  then show ?case by (cases stack) simp_all
next
  case (Suc n)
  show ?case
  proof (cases stack)
    case Nil
    with Suc.prems show ?thesis by simp
  next
    case (Cons d rest)
    from Suc.prems(2) Cons have d: "is_relative_to d root" and rest: "\<forall>s \<in> set rest. is_relative_to s root"
      by simp_all
    from Suc.prems(1)[unfolded Cons] show ?thesis
    proof (cases rule: walk_loop_step)
      case seen
      from Suc.IH[OF seen(2) rest] show ?thesis .
    next
      case (leaf ds')
      from Suc.IH[OF leaf(4) rest] leaf(2) d show ?thesis by simp
    next
      case (expand ds' names)
      from d have "\<forall>c \<in> set (subdirs fs d names). is_relative_to c root"
        by (auto simp: subdirs_def is_relative_to_def dest: relative_to_joinpath)
      with rest have "\<forall>s \<in> set (rev (subdirs fs d names) @ rest). is_relative_to s root" by auto
      from Suc.IH[OF expand(5) this] expand(2) d show ?thesis by simp
    qed
  qed
qed

lemma walk_loop_complete:
  "walk_loop fs gi root n stack visited = Some ds \<Longrightarrow>
   set stack \<subseteq> set ds \<union> visited \<and>
   (\<forall>p \<in> set ds. \<forall>x. child_of fs gi root p x \<longrightarrow> x \<in> set ds \<union> visited)"
proof (induction n arbitrary: stack visited ds)
  case 0
  then show ?case by (cases stack) simp_all
next
  case (Suc n)
  show ?case
  proof (cases stack)
    case Nil
    with Suc.prems show ?thesis by simp
  next
    case (Cons d rest)
    from Suc.prems[unfolded Cons] show ?thesis
    proof (cases rule: walk_loop_step)
      case seen
      from Suc.IH[OF seen(2)] seen(1) Cons show ?thesis by auto
    next
      case (leaf ds')
      from leaf(3) have "\<not> child_of fs gi root d x" for x by (auto simp: child_of_def)
      with Suc.IH[OF leaf(4)] leaf(2) Cons show ?thesis by auto
    next
      case (expand ds' names)
      have "x \<in> set (subdirs fs d names)" if "child_of fs gi root d x" for x
        using that expand(4) by (auto simp: child_of_def)
      with Suc.IH[OF expand(5)] expand(2) Cons show ?thesis by auto
    qed
  qed
qed

lemma demo_gi_depth0:
  "GitIgnore demo_fs (demo_cfg\<lparr>cfg_gitignore_depth := Some 0\<rparr>) (Path ''/'' [''root'', ''.gitignore'']) =
     \<lparr>gi_enabled = True, gi_gitignore_depth = Some 0,
      gi_specs = [(Path ''/'' [''root''], [''*.log'', ''!keep.log''])],
      gi_rel_path_cache = Map.empty, gi_root_path = Some (Path ''/'' [''root''])\<rparr>"
  by (simp add: GitIgnore_def load_spec_from_gitignore_def parse_gitignore_file_def
  parent_def strip_def whitespace_def lstrip_def startswith_def Let_def
  demo_fs_def demo_cfg_def demo_links_def demo_dirs_def demo_files_def join_paths_def)

lemma demo_listing:
  "fs_iterdir demo_fs (Path ''/'' [''root'']) = Some [''.gitignore'', ''foo'', ''a.PY'', ''link'', ''ln'', ''sub'']"
  "fs_iterdir demo_fs (Path ''/'' [''root'', ''sub'']) = Some [''.gitignore'', ''foo'', ''deep'']"
  "fs_iterdir demo_fs (Path ''/'' [''root'', ''sub'', ''deep'']) = Some [''.gitignore'', ''bar'']"
  "fs_iterdir demo_fs (Path ''/'' [''root'', ''sub'', ''deep'', ''bar'']) = Some []"
  by (simp_all add: demo_fs_def)

lemma demo_subdirs:
  "subdirs demo_fs (Path ''/'' [''root'']) [''.gitignore'', ''foo'', ''a.PY'', ''link'', ''ln'', ''sub'']
     = [Path ''/'' [''root'', ''sub'']]"
  "subdirs demo_fs (Path ''/'' [''root'', ''sub'']) [''.gitignore'', ''foo'', ''deep'']
     = [Path ''/'' [''root'', ''sub'', ''deep'']]"
  "subdirs demo_fs (Path ''/'' [''root'', ''sub'', ''deep'']) [''.gitignore'', ''bar'']
     = [Path ''/'' [''root'', ''sub'', ''deep'', ''bar'']]"
  "subdirs demo_fs p [] = []"
  by (simp_all add: subdirs_def joinpath_def demo_fs_def demo_dirs_def demo_links_def join_paths_def)


lemma demo_within0:
  "within_depth \<lparr>gi_enabled = e, gi_gitignore_depth = Some 0, gi_specs = sp,
      gi_rel_path_cache = c, gi_root_path = r\<rparr> (Path ''/'' [''root'']) (Path ''/'' [''root''])"
  "\<not> within_depth \<lparr>gi_enabled = e, gi_gitignore_depth = Some 0, gi_specs = sp,
      gi_rel_path_cache = c, gi_root_path = r\<rparr> (Path ''/'' [''root'']) (Path ''/'' [''root'', ''sub''])"
  by (simp_all add: within_depth_def relative_to_def)

lemma demo_walk_depth0:
  "walk_dirs demo_fs
     (GitIgnore demo_fs (demo_cfg\<lparr>cfg_gitignore_depth := Some 0\<rparr>) (Path ''/'' [''root'', ''.gitignore'']))
     (Path ''/'' [''root'']) (Suc (Suc (Suc 0))) =
   Some [Path ''/'' [''root''], Path ''/'' [''root'', ''sub'']]"
  unfolding demo_gi_depth0 by (simp add: walk_dirs_def demo_within0 demo_listing demo_subdirs)

lemma demo_gi_unbounded:
  "GitIgnore demo_fs (demo_cfg\<lparr>cfg_gitignore_depth := None\<rparr>) (Path ''/'' [''root'', ''.gitignore'']) =
     \<lparr>gi_enabled = True, gi_gitignore_depth = None,
      gi_specs = [(Path ''/'' [''root''], [''*.log'', ''!keep.log''])],
      gi_rel_path_cache = Map.empty, gi_root_path = Some (Path ''/'' [''root''])\<rparr>"
  by (simp add: GitIgnore_def load_spec_from_gitignore_def parse_gitignore_file_def
  parent_def strip_def whitespace_def lstrip_def startswith_def Let_def
  demo_fs_def demo_cfg_def demo_links_def demo_dirs_def demo_files_def join_paths_def)

lemma demo_walk_unbounded:
  "walk_dirs demo_fs
     (GitIgnore demo_fs (demo_cfg\<lparr>cfg_gitignore_depth := None\<rparr>) (Path ''/'' [''root'', ''.gitignore'']))
     (Path ''/'' [''root'']) (Suc (Suc (Suc (Suc (Suc 0))))) =
   Some [Path ''/'' [''root''], Path ''/'' [''root'', ''sub''],
         Path ''/'' [''root'', ''sub'', ''deep''],
         Path ''/'' [''root'', ''sub'', ''deep'', ''bar'']]"
  unfolding demo_gi_unbounded
  by (simp add: walk_dirs_def within_depth_def demo_listing demo_subdirs)

lemma demo_gitignore_files:
  "fs_is_file demo_fs (joinpath (Path ''/'' [''root'']) ''.gitignore'')"
  "fs_is_file demo_fs (joinpath (Path ''/'' [''root'', ''sub'']) ''.gitignore'')"
  "fs_is_file demo_fs (joinpath (Path ''/'' [''root'', ''sub'', ''deep'']) ''.gitignore'')"
  "\<not> fs_is_file demo_fs (joinpath (Path ''/'' [''root'', ''sub'', ''deep'', ''bar'']) ''.gitignore'')"
  by (simp_all add: joinpath_def demo_fs_def demo_files_def join_paths_def)

lemma demo_parse:
  "parse_gitignore_file demo_fs (joinpath (Path ''/'' [''root'']) ''.gitignore'') =
     [''*.log'', ''!keep.log'']"
  "parse_gitignore_file demo_fs (joinpath (Path ''/'' [''root'', ''sub'']) ''.gitignore'') = [''foo'']"
  "parse_gitignore_file demo_fs (joinpath (Path ''/'' [''root'', ''sub'', ''deep'']) ''.gitignore'') =
     [''bar'', ''!bar/keep'']"
  by (simp_all add: parse_gitignore_file_def joinpath_def demo_fs_def strip_def whitespace_def
      lstrip_def startswith_def Let_def)

lemma demo_listing_names:
  "\<forall>d names. fs_iterdir demo_fs d = Some names \<longrightarrow> ''.'' \<notin> set names"
  by (auto simp: demo_fs_def split: if_splits)

lemma demo_collect_depth0:
  "collect_patterns demo_fs
     (GitIgnore demo_fs (demo_cfg\<lparr>cfg_gitignore_depth := Some 0\<rparr>) (Path ''/'' [''root'', ''.gitignore'']))
     (Path ''/'' [''root'']) (Suc (Suc (Suc 0))) =
   Some (Inr [''*.log'', ''!keep.log'', ''sub/foo''])"
  by (simp add: collect_patterns_def demo_walk_depth0 demo_gitignore_files demo_parse
      relative_to_def as_posix_def startswith_def lstrip_def Let_def)

text \<open>
  Claim C9, as stated, fails. With depth 0 the directory \<open>/root/sub\<close> is beyond the depth;
  it is visited and \<open>_collect_patterns\<close> reads its \<open>.gitignore\<close>, which contributes the
  pattern \<open>sub/foo\<close>. The directory \<open>/root/sub/deep\<close>, also beyond the depth and not a
  symbolic link, is not visited at all.
\<close>

theorem beyond_depth_counterexample:
  "gi_gitignore_depth
     (GitIgnore demo_fs (demo_cfg\<lparr>cfg_gitignore_depth := Some 0\<rparr>) (Path ''/'' [''root'', ''.gitignore'']))
     = Some 0 \<and>
   \<not> within_depth
     (GitIgnore demo_fs (demo_cfg\<lparr>cfg_gitignore_depth := Some 0\<rparr>) (Path ''/'' [''root'', ''.gitignore'']))
     (Path ''/'' [''root'']) (Path ''/'' [''root'', ''sub'']) \<and>
   walk_dirs demo_fs
     (GitIgnore demo_fs (demo_cfg\<lparr>cfg_gitignore_depth := Some 0\<rparr>) (Path ''/'' [''root'', ''.gitignore'']))
     (Path ''/'' [''root'']) (Suc (Suc (Suc 0))) =
     Some [Path ''/'' [''root''], Path ''/'' [''root'', ''sub'']] \<and>
   collect_patterns demo_fs
     (GitIgnore demo_fs (demo_cfg\<lparr>cfg_gitignore_depth := Some 0\<rparr>) (Path ''/'' [''root'', ''.gitignore'']))
     (Path ''/'' [''root'']) (Suc (Suc (Suc 0))) =
     Some (Inr [''*.log'', ''!keep.log'', ''sub/foo'']) \<and>
   fs_is_dir demo_fs (Path ''/'' [''root'', ''sub'', ''deep'']) \<and>
   \<not> fs_is_symlink demo_fs (Path ''/'' [''root'', ''sub'', ''deep''])"
proof -
  have d: "fs_is_dir demo_fs (Path ''/'' [''root'', ''sub'', ''deep''])"
    and l: "\<not> fs_is_symlink demo_fs (Path ''/'' [''root'', ''sub'', ''deep''])"
    by (simp_all add: demo_fs_def demo_dirs_def demo_links_def join_paths_def)
  have g: "gi_gitignore_depth
     (GitIgnore demo_fs (demo_cfg\<lparr>cfg_gitignore_depth := Some 0\<rparr>) (Path ''/'' [''root'', ''.gitignore'']))
     = Some 0"
    unfolding demo_gi_depth0 by simp
  have w: "\<not> within_depth
     (GitIgnore demo_fs (demo_cfg\<lparr>cfg_gitignore_depth := Some 0\<rparr>) (Path ''/'' [''root'', ''.gitignore'']))
     (Path ''/'' [''root'']) (Path ''/'' [''root'', ''sub''])"
    unfolding demo_gi_depth0 by (rule demo_within0(2))
  from g w demo_walk_depth0 demo_collect_depth0 d l show ?thesis by blast
qed

lemma walk_dirs_visits:
  assumes "walk_dirs fs gi root fuel = Some ds"
  shows "distinct ds \<and>
    (\<forall>d \<in> set ds. d = root \<or>
       (\<exists>p \<in> set ds. \<exists>nm. d = joinpath p nm \<and> within_depth gi root p \<and>
          fs_is_dir fs d \<and> \<not> fs_is_symlink fs d)) \<and>
    (\<forall>p \<in> set ds. \<forall>names. within_depth gi root p \<and> fs_iterdir fs p = Some names \<longrightarrow>
       set (subdirs fs p names) \<subseteq> set ds) \<and>
    (\<forall>n. gi_gitignore_depth gi = Some n \<longrightarrow>
       (\<forall>d \<in> set ds. \<exists>parts. relative_to d root = Some parts \<and>
          int (length parts) \<le> max 0 (n + 1)))"
proof -
  from assms have w: "walk_loop fs gi root fuel [root] {} = Some ds" by (simp add: walk_dirs_def)
  from walk_loop_distinct[OF w] have a: "distinct ds" by simp
  have b: "d = root \<or> (\<exists>p \<in> set ds. \<exists>nm. d = joinpath p nm \<and> within_depth gi root p \<and>
          fs_is_dir fs d \<and> \<not> fs_is_symlink fs d)" if "d \<in> set ds" for d
  proof -
    from walk_loop_origin[OF w] that
    consider "d = root" | p where "p \<in> set ds" "child_of fs gi root p d" by auto
    then show ?thesis
    proof cases
      case 1
      then show ?thesis by simp
    next
      case 2
      from 2(2) 2(1) show ?thesis by (elim child_of_cases) blast
    qed
  qed
  have c: "set (subdirs fs p names) \<subseteq> set ds"
    if "p \<in> set ds" "within_depth gi root p \<and> fs_iterdir fs p = Some names" for p names
  proof
    fix x assume "x \<in> set (subdirs fs p names)"
    with that(2) have "child_of fs gi root p x" by (auto simp: child_of_def)
    with walk_loop_complete[OF w] that(1) show "x \<in> set ds" by auto
  qed
  have d: "\<exists>parts. relative_to d root = Some parts \<and> int (length parts) \<le> max 0 (n + 1)"
    if n: "gi_gitignore_depth gi = Some n" and "d \<in> set ds" for n d
    using b[OF that(2)]
  proof (elim disjE bexE exE conjE)
    assume "d = root"
    then show ?thesis by (simp add: relative_to_def)
  next
    fix p nm assume p: "d = joinpath p nm" "within_depth gi root p"
    from p(2) n obtain parts where r: "relative_to p root = Some parts" and l: "int (length parts) \<le> n"
      by (auto simp: within_depth_def split: option.splits)
    from relative_to_joinpath[OF r, of nm] l p(1) show ?thesis by simp
  qed
  from a b c d show ?thesis by blast
qed

lemma sum_unvisited_split:
  "distinct U \<Longrightarrow> d \<in> set U \<Longrightarrow> d \<notin> visited \<Longrightarrow>
   sum_list (map f (filter (\<lambda>x. x \<notin> visited) U)) =
   f d + sum_list (map f (filter (\<lambda>x. x \<notin> insert d visited) U))"
  for f :: "'a \<Rightarrow> nat"
proof (induction U)
  case Nil
  then show ?case by simp
next
  case (Cons u U)
  show ?case
  proof (cases "u = d")
    case True
    with Cons.prems have "d \<notin> set U" by simp
    then have "filter (\<lambda>x. x \<notin> insert d visited) U = filter (\<lambda>x. x \<notin> visited) U"
      by (intro filter_cong) auto
    with True Cons.prems show ?thesis by simp
  next
    case False
    with Cons show ?thesis by auto
  qed
qed

lemma walk_loop_enough_fuel:
  "distinct U \<Longrightarrow> set stack \<subseteq> set U \<Longrightarrow>
   \<forall>d \<in> set U. set (pushed fs gi root d) \<subseteq> set U \<Longrightarrow>
   length stack +
     sum_list (map (\<lambda>d. length (pushed fs gi root d)) (filter (\<lambda>x. x \<notin> visited) U)) \<le> n \<Longrightarrow>
   walk_loop fs gi root n stack visited \<noteq> None"
proof (induction n arbitrary: stack visited)
  case 0
  then show ?case by simp
next
  case (Suc n)
  let ?f = "\<lambda>d. length (pushed fs gi root d)"
  show ?case
  proof (cases stack)
    case Nil
    then show ?thesis by simp
  next
    case (Cons d rest)
    with Suc.prems(2) have dU: "d \<in> set U" and restU: "set rest \<subseteq> set U" by simp_all
    show ?thesis
    proof (cases "d \<in> visited")
      case True
      from Suc.prems(4) Cons
      have "length rest + sum_list (map ?f (filter (\<lambda>x. x \<notin> visited) U)) \<le> n" by simp
      from Suc.IH[OF Suc.prems(1) restU Suc.prems(3) this] True Cons show ?thesis by simp
    next
      case False
      from sum_unvisited_split[OF Suc.prems(1) dU False, of ?f] Suc.prems(4) Cons
      have b: "length rest + ?f d +
                 sum_list (map ?f (filter (\<lambda>x. x \<notin> insert d visited) U)) \<le> n"
        by simp
      from Suc.prems(3) dU have cl: "set (pushed fs gi root d) \<subseteq> set U" by blast
      show ?thesis
      proof (cases "within_depth gi root d \<and> fs_iterdir fs d \<noteq> None")
        case True
        then obtain names where it: "fs_iterdir fs d = Some names" by auto
        with True have p: "pushed fs gi root d = subdirs fs d names" by (simp add: pushed_def)
        from cl restU p have sub: "set (rev (subdirs fs d names) @ rest) \<subseteq> set U" by simp
        from b p have "length (rev (subdirs fs d names) @ rest) +
            sum_list (map ?f (filter (\<lambda>x. x \<notin> insert d visited) U)) \<le> n" by simp
        from Suc.IH[OF Suc.prems(1) sub Suc.prems(3) this] False True it Cons
        show ?thesis by simp
      next
        case leaf: False
        from b have "length rest +
            sum_list (map ?f (filter (\<lambda>x. x \<notin> insert d visited) U)) \<le> n" by simp
        from Suc.IH[OF Suc.prems(1) restU Suc.prems(3) this] False leaf Cons
        show ?thesis by (auto split: option.splits)
      qed
    qed
  qed
qed

lemma walk_dirs_enough_fuel:
  assumes "distinct U" "root \<in> set U" "\<forall>d \<in> set U. set (pushed fs gi root d) \<subseteq> set U"
    and "Suc (sum_list (map (\<lambda>d. length (pushed fs gi root d)) U)) \<le> fuel"
  shows "\<exists>ds. walk_dirs fs gi root fuel = Some ds"
proof -
  have "filter (\<lambda>x. x \<notin> {}) U = U" by simp
  with assms(4) have "length [root] +
     sum_list (map (\<lambda>d. length (pushed fs gi root d)) (filter (\<lambda>x. x \<notin> {}) U)) \<le> fuel"
    by simp
  from walk_loop_enough_fuel[OF assms(1) _ assms(3) this] assms(2)
  show ?thesis by (auto simp: walk_dirs_def)
qed

lemma demo_pushed_depth0:
  "pushed demo_fs
     (GitIgnore demo_fs (demo_cfg\<lparr>cfg_gitignore_depth := Some 0\<rparr>) (Path ''/'' [''root'', ''.gitignore'']))
     (Path ''/'' [''root'']) (Path ''/'' [''root'']) = [Path ''/'' [''root'', ''sub'']]"
  "pushed demo_fs
     (GitIgnore demo_fs (demo_cfg\<lparr>cfg_gitignore_depth := Some 0\<rparr>) (Path ''/'' [''root'', ''.gitignore'']))
     (Path ''/'' [''root'']) (Path ''/'' [''root'', ''sub'']) = []"
  unfolding demo_gi_depth0 by (simp_all add: pushed_def demo_within0 demo_listing demo_subdirs)

lemma demo_pushed_unbounded:
  "pushed demo_fs
     (GitIgnore demo_fs (demo_cfg\<lparr>cfg_gitignore_depth := None\<rparr>) (Path ''/'' [''root'', ''.gitignore'']))
     (Path ''/'' [''root'']) (Path ''/'' [''root'']) = [Path ''/'' [''root'', ''sub'']]"
  "pushed demo_fs
     (GitIgnore demo_fs (demo_cfg\<lparr>cfg_gitignore_depth := None\<rparr>) (Path ''/'' [''root'', ''.gitignore'']))
     (Path ''/'' [''root'']) (Path ''/'' [''root'', ''sub'']) = [Path ''/'' [''root'', ''sub'', ''deep'']]"
  "pushed demo_fs
     (GitIgnore demo_fs (demo_cfg\<lparr>cfg_gitignore_depth := None\<rparr>) (Path ''/'' [''root'', ''.gitignore'']))
     (Path ''/'' [''root'']) (Path ''/'' [''root'', ''sub'', ''deep'']) =
     [Path ''/'' [''root'', ''sub'', ''deep'', ''bar'']]"
  "pushed demo_fs
     (GitIgnore demo_fs (demo_cfg\<lparr>cfg_gitignore_depth := None\<rparr>) (Path ''/'' [''root'', ''.gitignore'']))
     (Path ''/'' [''root'']) (Path ''/'' [''root'', ''sub'', ''deep'', ''bar'']) = []"
  unfolding demo_gi_unbounded
  by (simp_all add: pushed_def within_depth_def demo_listing demo_subdirs)

text \<open>
  Claim C9, amended. On a finite set of directories closed under what the walk pushes,
  and with enough fuel, the walk returns. No directory is visited twice; every visited
  directory other than the root is an entry of a visited directory within the depth, is a
  directory and is not a symbolic link; every such entry of a visited directory within the
  depth whose listing succeeds is visited; and with a bounded depth \<open>n\<close> every visited
  directory lies at most \<open>n + 1\<close> levels below the root: a directory beyond the depth is
  never listed.
\<close>

theorem walk_dirs_depth_bounded:
  assumes "distinct U" and "root \<in> set U"
    and "\<forall>d \<in> set U. set (pushed fs gi root d) \<subseteq> set U"
    and "Suc (sum_list (map (\<lambda>d. length (pushed fs gi root d)) U)) \<le> fuel"
  shows "\<exists>ds. walk_dirs fs gi root fuel = Some ds \<and> distinct ds \<and>
    (\<forall>d \<in> set ds. d = root \<or>
       (\<exists>p \<in> set ds. \<exists>nm. d = joinpath p nm \<and> within_depth gi root p \<and>
          fs_is_dir fs d \<and> \<not> fs_is_symlink fs d)) \<and>
    (\<forall>p \<in> set ds. \<forall>names. within_depth gi root p \<and> fs_iterdir fs p = Some names \<longrightarrow>
       set (subdirs fs p names) \<subseteq> set ds) \<and>
    (\<forall>n. gi_gitignore_depth gi = Some n \<longrightarrow>
       (\<forall>d \<in> set ds. \<exists>parts. relative_to d root = Some parts \<and>
          int (length parts) \<le> max 0 (n + 1)))"
proof -
  from walk_dirs_enough_fuel[OF assms] obtain ds where w: "walk_dirs fs gi root fuel = Some ds" ..
  from walk_dirs_visits[OF w] w show ?thesis by blast
qed

theorem walk_dirs_depth_bounded_witness:
  "distinct [Path ''/'' [''root''], Path ''/'' [''root'', ''sub'']] \<and>
   Path ''/'' [''root''] \<in> set [Path ''/'' [''root''], Path ''/'' [''root'', ''sub'']] \<and>
   list_all (\<lambda>d. set (pushed demo_fs
       (GitIgnore demo_fs (demo_cfg\<lparr>cfg_gitignore_depth := Some 0\<rparr>) (Path ''/'' [''root'', ''.gitignore'']))
       (Path ''/'' [''root'']) d) \<subseteq> set [Path ''/'' [''root''], Path ''/'' [''root'', ''sub'']])
     [Path ''/'' [''root''], Path ''/'' [''root'', ''sub'']] \<and>
   Suc (sum_list (map (\<lambda>d. length (pushed demo_fs
       (GitIgnore demo_fs (demo_cfg\<lparr>cfg_gitignore_depth := Some 0\<rparr>) (Path ''/'' [''root'', ''.gitignore'']))
       (Path ''/'' [''root'']) d)) [Path ''/'' [''root''], Path ''/'' [''root'', ''sub'']]))
     \<le> Suc (Suc (Suc 0)) \<and>
   walk_dirs demo_fs
     (GitIgnore demo_fs (demo_cfg\<lparr>cfg_gitignore_depth := Some 0\<rparr>) (Path ''/'' [''root'', ''.gitignore'']))
     (Path ''/'' [''root'']) (Suc (Suc (Suc 0))) =
     Some [Path ''/'' [''root''], Path ''/'' [''root'', ''sub'']] \<and>
   gi_gitignore_depth
     (GitIgnore demo_fs (demo_cfg\<lparr>cfg_gitignore_depth := Some 0\<rparr>) (Path ''/'' [''root'', ''.gitignore'']))
     = Some 0 \<and>
   list_all (\<lambda>d. \<exists>parts. relative_to d (Path ''/'' [''root'']) = Some parts \<and> int (length parts) \<le> 1)
     [Path ''/'' [''root''], Path ''/'' [''root'', ''sub'']] \<and>
   within_depth
     (GitIgnore demo_fs (demo_cfg\<lparr>cfg_gitignore_depth := Some 0\<rparr>) (Path ''/'' [''root'', ''.gitignore'']))
     (Path ''/'' [''root'']) (Path ''/'' [''root'']) \<and>
   fs_iterdir demo_fs (Path ''/'' [''root'']) =
     Some [''.gitignore'', ''foo'', ''a.PY'', ''link'', ''ln'', ''sub''] \<and>
   set (subdirs demo_fs (Path ''/'' [''root''])
          [''.gitignore'', ''foo'', ''a.PY'', ''link'', ''ln'', ''sub''])
     \<subseteq> set [Path ''/'' [''root''], Path ''/'' [''root'', ''sub'']]"
proof -
  let ?gi = "GitIgnore demo_fs (demo_cfg\<lparr>cfg_gitignore_depth := Some 0\<rparr>)
               (Path ''/'' [''root'', ''.gitignore''])"
  let ?ds = "[Path ''/'' [''root''], Path ''/'' [''root'', ''sub'']]"
  have h1: "distinct ?ds" and h2: "Path ''/'' [''root''] \<in> set ?ds" by simp_all
  have h3: "\<forall>d \<in> set ?ds. set (pushed demo_fs ?gi (Path ''/'' [''root'']) d) \<subseteq> set ?ds"
    by (simp add: demo_pushed_depth0)
  have h4: "Suc (sum_list (map (\<lambda>d. length (pushed demo_fs ?gi (Path ''/'' [''root'']) d)) ?ds))
      \<le> Suc (Suc (Suc 0))"
    by (simp add: demo_pushed_depth0)
  from walk_dirs_depth_bounded[OF h1 h2 h3 h4]
  obtain ds where t: "walk_dirs demo_fs ?gi (Path ''/'' [''root'']) (Suc (Suc (Suc 0))) = Some ds"
    "distinct ds"
    "\<forall>p \<in> set ds. \<forall>names. within_depth ?gi (Path ''/'' [''root'']) p \<and>
        fs_iterdir demo_fs p = Some names \<longrightarrow> set (subdirs demo_fs p names) \<subseteq> set ds"
    "\<forall>n. gi_gitignore_depth ?gi = Some n \<longrightarrow>
       (\<forall>d \<in> set ds. \<exists>parts. relative_to d (Path ''/'' [''root'']) = Some parts \<and>
          int (length parts) \<le> max 0 (n + 1))"
    by blast
  from t(1) demo_walk_depth0 have ds: "ds = ?ds" by simp
  have dep: "gi_gitignore_depth ?gi = Some 0" unfolding demo_gi_depth0 by simp
  have wd: "within_depth ?gi (Path ''/'' [''root'']) (Path ''/'' [''root''])"
    unfolding demo_gi_depth0 by (rule demo_within0(1))
  from t(4) dep have "\<forall>d \<in> set ?ds. \<exists>parts. relative_to d (Path ''/'' [''root'']) = Some parts \<and>
      int (length parts) \<le> max 0 (0 + 1)" unfolding ds by blast
  then have c2: "list_all (\<lambda>d. \<exists>parts. relative_to d (Path ''/'' [''root'']) = Some parts \<and>
      int (length parts) \<le> 1) ?ds" by (simp add: list_all_iff)
  from t(3) wd demo_listing(1) have c3: "set (subdirs demo_fs (Path ''/'' [''root''])
          [''.gitignore'', ''foo'', ''a.PY'', ''link'', ''ln'', ''sub'']) \<subseteq> set ?ds"
    unfolding ds by (meson list.set_intros(1))
  from h3 have h3': "list_all (\<lambda>d. set (pushed demo_fs ?gi (Path ''/'' [''root'']) d) \<subseteq> set ?ds) ?ds"
    by (simp add: list_all_iff)
  from h1 h2 h3' h4 t(1)[unfolded ds] dep c2 wd demo_listing(1) c3 show ?thesis by blast
qed


section \<open>Prefixing nested patterns\<close>

lemma prefix_patterns_prefixed: "prefix_patterns pre pats = map (prefixed pre) pats"
proof (induction pats)
  case Nil
  then show ?case by simp
next
  case (Cons pat pats)
  have "startswith pat ''!'' \<longleftrightarrow> pat \<noteq> [] \<and> hd pat = CHR ''!''"
    by (cases pat) (auto simp: startswith_def)
  moreover have "drop 1 pat = tl pat" by (cases pat) simp_all
  ultimately show ?case using Cons.IH by (simp add: prefixed_def Let_def)
qed

lemma join_slash: "parts \<noteq> [] \<Longrightarrow> join ''/'' parts @ ''/'' = dir_prefix parts"
proof (induction parts)
  case Nil
  then show ?case by simp
next
  case (Cons x xs)
  then show ?case by (cases xs) (simp_all add: dir_prefix_def)
qed

lemma join_dot: "join ''/'' parts = ''.'' \<Longrightarrow> parts = [''.'']"
proof (cases parts)
  case Nil
  moreover assume "join ''/'' parts = ''.''"
  ultimately show ?thesis by simp
next
  case (Cons x xs)
  assume j: "join ''/'' parts = ''.''"
  show ?thesis
  proof (cases xs)
    case Nil
    with Cons j show ?thesis by simp
  next
    case (Cons y ys)
    with \<open>parts = x # xs\<close> j show ?thesis by (cases x) (auto simp: append_eq_Cons_conv)
  qed
qed

lemma source_prefix:
  assumes "parts \<noteq> [''.'']"
  shows "(if as_posix parts = ''.'' then [] else as_posix parts @ ''/'') = dir_prefix parts"
proof (cases "parts = []")
  case True
  then show ?thesis by (simp add: as_posix_def dir_prefix_def)
next
  case False
  with assms join_dot[of parts] have "join ''/'' parts \<noteq> ''.''" by blast
  with False show ?thesis by (simp add: as_posix_def join_slash)
qed

lemma collect_loop_nested:
  "\<forall>d \<in> set ds. \<exists>parts. relative_to d root = Some parts \<and> parts \<noteq> [''.''] \<Longrightarrow>
   collect_loop fs root ds = Inr (concat (map (nested_patterns fs root) ds))"
proof (induction ds)
  case Nil
  then show ?case by simp
next
  case (Cons d ds)
  then obtain parts where r: "relative_to d root = Some parts" and nd: "parts \<noteq> [''.'']"
    by auto
  from r have parts: "parts = drop (length (segments root)) (segments d)"
    by (auto simp: relative_to_def split: if_splits)
  from Cons have ih: "collect_loop fs root ds = Inr (concat (map (nested_patterns fs root) ds))"
    by simp
  show ?case
  proof (cases "fs_is_file fs (joinpath d ''.gitignore'')")
    case True
    with r have step: "collect_loop fs root (d # ds) =
        (case collect_loop fs root ds of
           Inl e \<Rightarrow> Inl e
         | Inr patterns \<Rightarrow>
             Inr (prefix_patterns (if as_posix parts = ''.'' then [] else as_posix parts @ ''/'')
                    (parse_gitignore_file fs (joinpath d ''.gitignore'')) @ patterns))"
      by (simp add: Let_def)
    have here: "nested_patterns fs root d =
        map (prefixed (dir_prefix parts)) (parse_gitignore_file fs (joinpath d ''.gitignore''))"
      using True by (simp add: nested_patterns_def parts)
    show ?thesis
      unfolding step ih source_prefix[OF nd] prefix_patterns_prefixed by (simp add: here)
  next
    case False
    then have "nested_patterns fs root d = []" by (simp add: nested_patterns_def)
    with False ih show ?thesis by simp
  qed
qed

lemma walk_dirs_parts:
  assumes "walk_dirs fs gi root fuel = Some ds"
    and "\<forall>d names. fs_iterdir fs d = Some names \<longrightarrow> ''.'' \<notin> set names"
    and "d \<in> set ds"
  shows "\<exists>parts. relative_to d root = Some parts \<and> parts \<noteq> [''.'']"
proof -
  from assms(1) have w: "walk_loop fs gi root fuel [root] {} = Some ds" by (simp add: walk_dirs_def)
  have rr: "is_relative_to root root" by (simp add: is_relative_to_def relative_to_def)
  from walk_loop_below_root[OF w] rr have below: "\<forall>x \<in> set ds. is_relative_to x root" by simp
  from walk_loop_origin[OF w] assms(3)
  consider "d = root" | p where "p \<in> set ds" "child_of fs gi root p d" by auto
  then show ?thesis
  proof cases
    case 1
    then show ?thesis by (simp add: relative_to_def)
  next
    case 2
    from 2(2) obtain nm names where it: "fs_iterdir fs p = Some names" "nm \<in> set names"
      and d: "d = joinpath p nm" by (elim child_of_cases)
    from it assms(2) have "nm \<noteq> ''.''" by blast
    moreover from below 2(1) obtain pp where "relative_to p root = Some pp"
      by (auto simp: is_relative_to_def)
    from relative_to_joinpath[OF this, of nm] d have "relative_to d root = Some (pp @ [nm])"
      by simp
    ultimately show ?thesis by (cases pp) auto
  qed
qed

lemma demo_collect_unbounded:
  "collect_patterns demo_fs
     (GitIgnore demo_fs (demo_cfg\<lparr>cfg_gitignore_depth := None\<rparr>) (Path ''/'' [''root'', ''.gitignore'']))
     (Path ''/'' [''root'']) (Suc (Suc (Suc (Suc (Suc 0))))) =
   Some (Inr [''*.log'', ''!keep.log'', ''sub/foo'', ''sub/deep/bar'', ''!sub/deep/bar/keep''])"
  by (simp add: collect_patterns_def demo_walk_unbounded demo_gitignore_files demo_parse
      relative_to_def as_posix_def startswith_def lstrip_def Let_def)

lemma collect_patterns_of_walk:
  assumes "walk_dirs fs gi root fuel = Some ds"
    and "\<forall>d names. fs_iterdir fs d = Some names \<longrightarrow> ''.'' \<notin> set names"
  shows "collect_patterns fs gi root fuel =
           Some (Inr (concat (map (\<lambda>d.
             if fs_is_file fs (joinpath d ''.gitignore'')
             then map (prefixed (dir_prefix (drop (length (segments root)) (segments d))))
                    (parse_gitignore_file fs (joinpath d ''.gitignore''))
             else []) ds))) \<and>
         (\<forall>d \<in> set ds. anchor d = anchor root \<and> prefix (segments root) (segments d)) \<and>
         dir_prefix (drop (length (segments root)) (segments root)) = [] \<and>
         dir_prefix (drop (length (segments root)) (segments root @ [a, b])) = a @ ''/'' @ b @ ''/'' \<and>
         prefixed pre (''!'' @ body) = ''!'' @ pre @ lstrip CHR ''/'' body \<and>
         (\<not> startswith pat ''!'' \<longrightarrow> prefixed pre pat = pre @ lstrip CHR ''/'' pat)"
proof -
  from walk_dirs_parts[OF assms]
  have parts: "\<forall>d \<in> set ds. \<exists>parts. relative_to d root = Some parts \<and> parts \<noteq> [''.'']"
    by blast
  from collect_loop_nested[OF this] assms(1)
  have "collect_patterns fs gi root fuel = Some (Inr (concat (map (nested_patterns fs root) ds)))"
    by (simp add: collect_patterns_def)
  moreover have "nested_patterns fs root = (\<lambda>d.
             if fs_is_file fs (joinpath d ''.gitignore'')
             then map (prefixed (dir_prefix (drop (length (segments root)) (segments d))))
                    (parse_gitignore_file fs (joinpath d ''.gitignore''))
             else [])"
    by (rule ext) (simp add: nested_patterns_def)
  moreover from parts have "\<forall>d \<in> set ds. anchor d = anchor root \<and> prefix (segments root) (segments d)"
    by (auto simp: relative_to_def split: if_splits)
  moreover have "\<not> startswith pat ''!'' \<longrightarrow> prefixed pre pat = pre @ lstrip CHR ''/'' pat"
    by (cases pat) (simp_all add: prefixed_def startswith_def)
  ultimately show ?thesis by (simp add: dir_prefix_def prefixed_def)
qed

text \<open>
  The rewriting itself. On a finite set of directories closed under what the walk pushes,
  with enough fuel and no listing that contains the name \<open>.\<close>, the walk returns and the
  patterns collected are, in walk order, the patterns of every visited directory that has a
  \<open>.gitignore\<close> file, each rewritten with the prefix of that directory relative to the root:
  the prefix is empty for the root and \<open>a/b/\<close> for the directory \<open>a/b\<close>, it is put in
  front of the body of the pattern, and the negation mark stays in front of the prefix.
  Every visited directory is the root or lies below it, and no \<open>ValueError\<close> is raised.
\<close>

lemma collect_patterns_rewrites_nested:
  assumes "distinct U" and "root \<in> set U"
    and "\<forall>d \<in> set U. set (pushed fs gi root d) \<subseteq> set U"
    and "Suc (sum_list (map (\<lambda>d. length (pushed fs gi root d)) U)) \<le> fuel"
    and "\<forall>d names. fs_iterdir fs d = Some names \<longrightarrow> ''.'' \<notin> set names"
  shows "\<exists>ds. walk_dirs fs gi root fuel = Some ds \<and>
         collect_patterns fs gi root fuel =
           Some (Inr (concat (map (\<lambda>d.
             if fs_is_file fs (joinpath d ''.gitignore'')
             then map (prefixed (dir_prefix (drop (length (segments root)) (segments d))))
                    (parse_gitignore_file fs (joinpath d ''.gitignore''))
             else []) ds))) \<and>
         (\<forall>d \<in> set ds. anchor d = anchor root \<and> prefix (segments root) (segments d)) \<and>
         dir_prefix (drop (length (segments root)) (segments root)) = [] \<and>
         dir_prefix (drop (length (segments root)) (segments root @ [a, b])) = a @ ''/'' @ b @ ''/'' \<and>
         prefixed pre (''!'' @ body) = ''!'' @ pre @ lstrip CHR ''/'' body \<and>
         (\<not> startswith pat ''!'' \<longrightarrow> prefixed pre pat = pre @ lstrip CHR ''/'' pat)"
proof -
  from walk_dirs_enough_fuel[OF assms(1-4)]
  obtain ds where w: "walk_dirs fs gi root fuel = Some ds" ..
  from collect_patterns_of_walk[OF w assms(5)] w show ?thesis by blast
qed

lemma collect_patterns_rewrites_nested_demo:
  "distinct [Path ''/'' [''root''], Path ''/'' [''root'', ''sub''],
         Path ''/'' [''root'', ''sub'', ''deep''],
         Path ''/'' [''root'', ''sub'', ''deep'', ''bar'']] \<and>
   list_all (\<lambda>d. set (pushed demo_fs
       (GitIgnore demo_fs (demo_cfg\<lparr>cfg_gitignore_depth := None\<rparr>) (Path ''/'' [''root'', ''.gitignore'']))
       (Path ''/'' [''root'']) d) \<subseteq>
       set [Path ''/'' [''root''], Path ''/'' [''root'', ''sub''],
         Path ''/'' [''root'', ''sub'', ''deep''],
         Path ''/'' [''root'', ''sub'', ''deep'', ''bar'']])
     [Path ''/'' [''root''], Path ''/'' [''root'', ''sub''],
         Path ''/'' [''root'', ''sub'', ''deep''],
         Path ''/'' [''root'', ''sub'', ''deep'', ''bar'']] \<and>
   walk_dirs demo_fs
     (GitIgnore demo_fs (demo_cfg\<lparr>cfg_gitignore_depth := None\<rparr>) (Path ''/'' [''root'', ''.gitignore'']))
     (Path ''/'' [''root'']) (Suc (Suc (Suc (Suc (Suc 0))))) =
   Some [Path ''/'' [''root''], Path ''/'' [''root'', ''sub''],
         Path ''/'' [''root'', ''sub'', ''deep''],
         Path ''/'' [''root'', ''sub'', ''deep'', ''bar'']] \<and>
   collect_patterns demo_fs
     (GitIgnore demo_fs (demo_cfg\<lparr>cfg_gitignore_depth := None\<rparr>) (Path ''/'' [''root'', ''.gitignore'']))
     (Path ''/'' [''root'']) (Suc (Suc (Suc (Suc (Suc 0))))) =
   Some (Inr [''*.log'', ''!keep.log'', ''sub/foo'', ''sub/deep/bar'', ''!sub/deep/bar/keep'']) \<and>
   \<not> startswith ''bar'' ''!'' \<and>
   prefixed ''sub/deep/'' ''bar'' = ''sub/deep/bar'' \<and>
   prefixed ''sub/deep/'' ''!bar/keep'' = ''!sub/deep/bar/keep''"
proof -
  let ?gi = "GitIgnore demo_fs (demo_cfg\<lparr>cfg_gitignore_depth := None\<rparr>)
               (Path ''/'' [''root'', ''.gitignore''])"
  let ?U = "[Path ''/'' [''root''], Path ''/'' [''root'', ''sub''],
         Path ''/'' [''root'', ''sub'', ''deep''],
         Path ''/'' [''root'', ''sub'', ''deep'', ''bar'']]"
  have h1: "distinct ?U" and h2: "Path ''/'' [''root''] \<in> set ?U" by simp_all
  have h3: "\<forall>d \<in> set ?U. set (pushed demo_fs ?gi (Path ''/'' [''root'']) d) \<subseteq> set ?U"
    by (simp add: demo_pushed_unbounded)
  have h4: "Suc (sum_list (map (\<lambda>d. length (pushed demo_fs ?gi (Path ''/'' [''root'']) d)) ?U))
      \<le> Suc (Suc (Suc (Suc (Suc 0))))"
    by (simp add: demo_pushed_unbounded)
  note t = collect_patterns_rewrites_nested[OF h1 h2 h3 h4 demo_listing_names,
      where pre = "''sub/deep/''" and pat = "''bar''" and body = "''bar/keep''"]
  have ns: "\<not> startswith ''bar'' ''!''" by (simp add: startswith_def)
  from t ns have p1: "prefixed ''sub/deep/'' ''bar'' = ''sub/deep/'' @ lstrip CHR ''/'' ''bar''"
    by blast
  from t have p2: "prefixed ''sub/deep/'' (''!'' @ ''bar/keep'') =
      ''!'' @ ''sub/deep/'' @ lstrip CHR ''/'' ''bar/keep''" by blast
  from t demo_walk_unbounded have c: "collect_patterns demo_fs ?gi
     (Path ''/'' [''root'']) (Suc (Suc (Suc (Suc (Suc 0))))) =
     Some (Inr (concat (map (\<lambda>d.
             if fs_is_file demo_fs (joinpath d ''.gitignore'')
             then map (prefixed (dir_prefix (drop (length (segments (Path ''/'' [''root''])))
                         (segments d))))
                    (parse_gitignore_file demo_fs (joinpath d ''.gitignore''))
             else []) ?U)))"
    by auto
  have c': "collect_patterns demo_fs ?gi
     (Path ''/'' [''root'']) (Suc (Suc (Suc (Suc (Suc 0))))) =
     Some (Inr [''*.log'', ''!keep.log'', ''sub/foo'', ''sub/deep/bar'', ''!sub/deep/bar/keep''])"
    unfolding c
    by (simp add: demo_gitignore_files demo_parse dir_prefix_def prefixed_def lstrip_def)
  from h3 have h3': "list_all (\<lambda>d. set (pushed demo_fs ?gi (Path ''/'' [''root'']) d) \<subseteq> set ?U) ?U"
    by (simp add: list_all_iff)
  from h1 h3' demo_walk_unbounded c' ns p1 p2 show ?thesis by (simp add: lstrip_def)
qed

subsection \<open>A directory name is put into the pattern as it is\<close>

lemma bang_gi:
  "GitIgnore bang_fs (demo_cfg\<lparr>cfg_gitignore_depth := None\<rparr>) (Path ''/'' [''root'', ''.gitignore'']) =
     \<lparr>gi_enabled = True, gi_gitignore_depth = None, gi_specs = [],
      gi_rel_path_cache = Map.empty, gi_root_path = Some (Path ''/'' [''root''])\<rparr>"
  by (simp add: GitIgnore_def load_spec_from_gitignore_def parse_gitignore_file_def parent_def
      bang_fs_def demo_cfg_def join_paths_def Let_def)

lemma bang_listing:
  "fs_iterdir bang_fs (Path ''/'' [''root'']) = Some [''!x'', ''x'']"
  "fs_iterdir bang_fs (Path ''/'' [''root'', ''!x'']) = Some [''.gitignore'', ''bar'']"
  "fs_iterdir bang_fs (Path ''/'' [''root'', ''x'']) = Some [''bar'']"
  by (simp_all add: bang_fs_def)

lemma bang_subdirs:
  "subdirs bang_fs (Path ''/'' [''root'']) [''!x'', ''x''] =
     [Path ''/'' [''root'', ''!x''], Path ''/'' [''root'', ''x'']]"
  "subdirs bang_fs (Path ''/'' [''root'', ''!x'']) [''.gitignore'', ''bar''] = []"
  "subdirs bang_fs (Path ''/'' [''root'', ''x'']) [''bar''] = []"
  by (simp_all add: subdirs_def joinpath_def bang_fs_def)

lemma bang_walk:
  "walk_dirs bang_fs
     (GitIgnore bang_fs (demo_cfg\<lparr>cfg_gitignore_depth := None\<rparr>) (Path ''/'' [''root'', ''.gitignore'']))
     (Path ''/'' [''root'']) (Suc (Suc (Suc (Suc 0)))) =
   Some [Path ''/'' [''root''], Path ''/'' [''root'', ''x''], Path ''/'' [''root'', ''!x'']]"
  unfolding bang_gi
  by (simp add: walk_dirs_def within_depth_def bang_listing bang_subdirs)

lemma bang_gitignore_files:
  "\<not> fs_is_file bang_fs (joinpath (Path ''/'' [''root'']) ''.gitignore'')"
  "\<not> fs_is_file bang_fs (joinpath (Path ''/'' [''root'', ''x'']) ''.gitignore'')"
  "fs_is_file bang_fs (joinpath (Path ''/'' [''root'', ''!x'']) ''.gitignore'')"
  "fs_is_file bang_fs (Path ''/'' [''root'', ''x'', ''bar''])"
  by (simp_all add: joinpath_def bang_fs_def)

lemma bang_parse:
  "parse_gitignore_file bang_fs (joinpath (Path ''/'' [''root'', ''!x'']) ''.gitignore'') = [''bar'']"
  by (simp add: parse_gitignore_file_def joinpath_def bang_fs_def strip_def whitespace_def
      lstrip_def startswith_def Let_def)

text \<open>
  Claim C4 fails on the code: the rewriting is done, but the directory prefix is put into
  the pattern unescaped, so the rewritten pattern can reach outside the subtree of its
  file. In a root with the directories \<open>!x\<close> and \<open>x\<close>, the file \<open>!x/.gitignore\<close> holds the
  one pattern \<open>bar\<close>, which is not a negation. The pattern collected for it is \<open>!x/bar\<close>:
  it starts with the negation mark, and its body \<open>x/bar\<close> names the file \<open>/root/x/bar\<close>,
  which lies in the sibling directory \<open>x\<close> and not under \<open>!x\<close>.
\<close>

theorem unescaped_prefix_makes_a_negation:
  "parse_gitignore_file bang_fs (joinpath (Path ''/'' [''root'', ''!x'']) ''.gitignore'') = [''bar''] \<and>
   \<not> startswith ''bar'' ''!'' \<and>
   collect_patterns bang_fs
     (GitIgnore bang_fs (demo_cfg\<lparr>cfg_gitignore_depth := None\<rparr>) (Path ''/'' [''root'', ''.gitignore'']))
     (Path ''/'' [''root'']) (Suc (Suc (Suc (Suc 0)))) = Some (Inr [''!x/bar'']) \<and>
   startswith ''!x/bar'' ''!'' \<and> drop 1 ''!x/bar'' = ''x/bar'' \<and>
   fs_is_file bang_fs (Path ''/'' [''root'', ''x'', ''bar'']) \<and>
   \<not> is_relative_to (Path ''/'' [''root'', ''x'', ''bar'']) (Path ''/'' [''root'', ''!x''])"
proof -
  have c: "collect_patterns bang_fs
     (GitIgnore bang_fs (demo_cfg\<lparr>cfg_gitignore_depth := None\<rparr>) (Path ''/'' [''root'', ''.gitignore'']))
     (Path ''/'' [''root'']) (Suc (Suc (Suc (Suc 0)))) = Some (Inr [''!x/bar''])"
    by (simp add: collect_patterns_def bang_walk bang_gitignore_files bang_parse
        relative_to_def as_posix_def startswith_def lstrip_def Let_def)
  have s: "\<not> startswith ''bar'' ''!''" "startswith ''!x/bar'' ''!''"
    by (simp_all add: startswith_def)
  have n: "\<not> is_relative_to (Path ''/'' [''root'', ''x'', ''bar'']) (Path ''/'' [''root'', ''!x''])"
    by (simp add: is_relative_to_def relative_to_def)
  from bang_parse s c bang_gitignore_files(4) n show ?thesis by simp
qed

end
